theory Spec2Isabelle
  imports Main "HOL-Library.Word"
begin

unbundle bit_operations_syntax

section \<open>Byte strings and the C/C++ library helpers of warc.pyx\<close>

text \<open>
  A C++ \<open>std::string\<close> and a Python \<open>bytes\<close> object are lists of 8-bit characters.
  Sizes (\<open>size_t\<close>) are natural numbers; every string held in memory is shorter than
  \<open>2 ^ 64\<close>, and the wrap-around of \<open>size_t\<close> is written out at the subtractions and at
  the conversion from \<open>int\<close>, where it can occur.
\<close>

type_synonym bytes = string

abbreviation CRLF :: bytes where
  "CRLF \<equiv> [CHR 0x0D, CHR 0x0A]"

abbreviation LF :: bytes where
  "LF \<equiv> [CHR 0x0A]"

definition size_max :: nat where
  "size_max = 2 ^ 64"

text \<open>\<open>isspace\<close> and \<open>tolower\<close> of the C header \<open>cctype\<close>, in the C locale (lines 32-34).\<close>

definition isspace :: "char \<Rightarrow> bool" where
  "isspace c = (c = CHR 0x09 \<or> c = CHR 0x0A \<or> c = CHR 0x0B \<or> c = CHR 0x0C
                \<or> c = CHR 0x0D \<or> c = CHR '' '')"

definition tolower :: "char \<Rightarrow> char" where
  "tolower c =
     (case map_of (zip ''ABCDEFGHIJKLMNOPQRSTUVWXYZ'' ''abcdefghijklmnopqrstuvwxyz'') c of
        Some d \<Rightarrow> d
      | None \<Rightarrow> c)"

text \<open>
  \<open>std::string::substr(pos, count)\<close>. It throws when \<open>pos\<close> exceeds the size; at every
  call of the source \<open>pos\<close> is at most the size, so the model is the total function.
\<close>

definition substr :: "bytes \<Rightarrow> nat \<Rightarrow> nat \<Rightarrow> bytes" where
  "substr s pos cnt = take cnt (drop pos s)"

text \<open>\<open>substr(pos)\<close>, whose count defaults to \<open>npos\<close>: the rest of the string.\<close>

definition substr_from :: "bytes \<Rightarrow> nat \<Rightarrow> bytes" where
  "substr_from s pos = drop pos s"

text \<open>
  \<open>strip_str\<close> (lines 43-55). The two \<open>for\<close> loops leave the loop variable at the last
  index they visited when no \<open>break\<close> happens: \<open>start\<close> at \<open>size - 1\<close> and \<open>end\<close> at \<open>0\<close>
  for a string of whitespace only (and at their initial values for the empty string).
\<close>

fun strip_start_loop :: "bytes \<Rightarrow> nat \<Rightarrow> nat \<Rightarrow> nat" where
  "strip_start_loop [] i start = start"
| "strip_start_loop (c # cs) i start =
     (if \<not> isspace c then i else strip_start_loop cs (Suc i) i)"

fun strip_end_loop :: "bytes \<Rightarrow> nat \<Rightarrow> nat \<Rightarrow> nat" where
  "strip_end_loop [] j end = end"
| "strip_end_loop (c # cs) j end =
     (if \<not> isspace c then j else strip_end_loop cs (j - 1) j)"

definition strip_str :: "bytes \<Rightarrow> bytes" where
  "strip_str s =
     (let start = strip_start_loop s 0 0;
          end = strip_end_loop (rev s) (length s - 1) (length s);
          cnt = (if start \<le> end + 1 then end + 1 - start else size_max + end + 1 - start)
      in substr s start cnt)"

definition str_to_lower :: "bytes \<Rightarrow> bytes" where
  "str_to_lower s = map tolower s"

text \<open>\<open>s.find(c)\<close> for a character: the first index, or \<open>None\<close> for \<open>npos\<close>.\<close>

definition find_char :: "char \<Rightarrow> bytes \<Rightarrow> nat option" where
  "find_char c s = (if c \<in> set s then Some (length (takeWhile (\<lambda>x. x \<noteq> c) s)) else None)"

text \<open>\<open>s.find(p) == 0\<close> for a string \<open>p\<close>: the first occurrence is at 0, so \<open>p\<close> is a prefix.\<close>

definition find_at_0 :: "bytes \<Rightarrow> bytes \<Rightarrow> bool" where
  "find_at_0 p s = (take (length p) s = p)"

text \<open>
  \<open>std::stoi\<close> (declared at line 37): leading whitespace is skipped, an optional sign
  and the longest run of decimal digits are read; it throws \<open>invalid_argument\<close> when there
  is no digit and \<open>out_of_range\<close> when the value does not fit a 32-bit \<open>int\<close>. The
  declaration has no \<open>except +\<close>, so neither exception is translated or caught.
\<close>

datatype error =
  StoiInvalidArgument | StoiOutOfRange | KeyError | TypeError | Base32Error | NullReader

definition is_digit :: "char \<Rightarrow> bool" where
  "is_digit c = (c \<in> set ''0123456789'')"

definition digit_val :: "char \<Rightarrow> nat" where
  "digit_val c = (case map_of (zip ''0123456789'' [0, 1, 2, 3, 4, 5, 6, 7, 8, 9]) c of
        Some d \<Rightarrow> d
      | None \<Rightarrow> 0)"

fun dec_value :: "nat \<Rightarrow> bytes \<Rightarrow> nat" where
  "dec_value acc [] = acc"
| "dec_value acc (c # cs) = dec_value (10 * acc + digit_val c) cs"

definition stoi :: "bytes \<Rightarrow> error + int" where
  "stoi s =
     (let t = dropWhile isspace s;
          neg = (t \<noteq> [] \<and> hd t = CHR ''-'');
          u = (if t \<noteq> [] \<and> (hd t = CHR ''-'' \<or> hd t = CHR ''+'') then tl t else t);
          ds = takeWhile is_digit u;
          v = (if neg then - int (dec_value 0 ds) else int (dec_value 0 ds))
      in if ds = [] then Inl StoiInvalidArgument
         else if v < - (2 ^ 31) \<or> 2 ^ 31 - 1 < v then Inl StoiOutOfRange
         else Inr v)"

text \<open>The conversion of an \<open>int\<close> to \<open>size_t\<close> (the assignment at line 539).\<close>

definition int_to_size_t :: "int \<Rightarrow> nat" where
  "int_to_size_t v = nat (v mod 2 ^ 64)"

text \<open>\<open>std::to_string(size_t)\<close> (line 39): the decimal digits.\<close>

fun to_string :: "nat \<Rightarrow> bytes" where
  "to_string n =
     (if n < 10 then [''0123456789'' ! n]
      else to_string (n div 10) @ [''0123456789'' ! (n mod 10)])"

declare to_string.simps [simp del]

section \<open>Record types\<close>

datatype WarcRecordType =
  warcinfo | response | resource | request | metadata | revisit | conversion
  | continuation | unknown | any_type | no_type

text \<open>
  Modelled from the spec: the numeric values of the enum \<open>WarcRecordType\<close> are declared in
  warc.pxd, which is not among the sources. The spec (section 3) makes a filter a bitset over the
  nine real types, \<open>no_type\<close> the empty set and \<open>any_type\<close> the set that matches any type.
  The model gives each real type a bit of its own, \<open>no_type\<close> no bit and \<open>any_type\<close> all
  bits; the results below depend on nothing else about the values.
\<close>

definition type_bits :: "WarcRecordType \<Rightarrow> 16 word" where
  "type_bits t =
     (case t of
        warcinfo \<Rightarrow> 2 | response \<Rightarrow> 4 | resource \<Rightarrow> 8 | request \<Rightarrow> 16
      | metadata \<Rightarrow> 32 | revisit \<Rightarrow> 64 | conversion \<Rightarrow> 128 | continuation \<Rightarrow> 256
      | unknown \<Rightarrow> 512 | any_type \<Rightarrow> 65535 | no_type \<Rightarrow> 0)"

definition enum_record_type_to_str :: "WarcRecordType \<Rightarrow> bytes" where
  "enum_record_type_to_str record_type =
     (if record_type = warcinfo then ''warcinfo''
      else if record_type = response then ''response''
      else if record_type = resource then ''resource''
      else if record_type = request then ''request''
      else if record_type = metadata then ''metadata''
      else if record_type = revisit then ''revisit''
      else if record_type = conversion then ''conversion''
      else if record_type = continuation then ''continuation''
      else ''unknown'')"

definition str_record_type_to_enum :: "bytes \<Rightarrow> WarcRecordType" where
  "str_record_type_to_enum record_type0 =
     (let record_type = str_to_lower record_type0
      in if record_type = ''warcinfo'' then warcinfo
         else if record_type = ''response'' then response
         else if record_type = ''resource'' then resource
         else if record_type = ''request'' then request
         else if record_type = ''metadata'' then metadata
         else if record_type = ''revisit'' then revisit
         else if record_type = ''conversion'' then conversion
         else if record_type = ''continuation'' then continuation
         else unknown)"

section \<open>WarcHeaderMap\<close>

text \<open>
  A Python \<open>dict\<close> of strings is an association list in insertion order; assigning to a key
  that is present replaces its value in place. \<open>bytes.decode(enc, errors='ignore')\<close> is the
  standard library's: the model takes it as the parameter \<open>dec\<close>, from the encoding's name
  and the bytes to the string.
\<close>

type_synonym py_dict = "(string \<times> string) list"

type_synonym decoder = "string \<Rightarrow> bytes \<Rightarrow> string"

fun dict_setitem :: "string \<Rightarrow> string \<Rightarrow> py_dict \<Rightarrow> py_dict" where
  "dict_setitem k v [] = [(k, v)]"
| "dict_setitem k v ((k', v') # d) =
     (if k' = k then (k', v) # d else (k', v') # dict_setitem k v d)"

record WarcHeaderMap =
  m_enc :: string
  m_status_line :: bytes
  m_headers :: "(bytes \<times> bytes) list"
  m_dict_cache :: "py_dict option"
  m_dict_cache_stale :: bool

text \<open>\<open>__cinit__\<close> (lines 109-112); the C++ members start empty.\<close>

definition new_WarcHeaderMap :: "string \<Rightarrow> WarcHeaderMap" where
  "new_WarcHeaderMap encoding =
     \<lparr>m_enc = encoding, m_status_line = [], m_headers = [],
      m_dict_cache = None, m_dict_cache_stale = True\<rparr>"

text \<open>
  \<open>asdict\<close> (lines 162-168): the dict comprehension runs when the cache is stale; the flag
  is left as it is (no line of the source clears it). The result is the cache, which is
  \<open>None\<close> when it was never built.
\<close>

definition build_dict :: "decoder \<Rightarrow> string \<Rightarrow> (bytes \<times> bytes) list \<Rightarrow> py_dict" where
  "build_dict dec e hs = foldl (\<lambda>d h. dict_setitem (dec e (fst h)) (dec e (snd h)) d) [] hs"

definition asdict :: "decoder \<Rightarrow> WarcHeaderMap \<Rightarrow> py_dict option \<times> WarcHeaderMap" where
  "asdict dec m =
     (if m_dict_cache_stale m
      then (let d = build_dict dec (m_enc m) (m_headers m)
            in (Some d, m\<lparr>m_dict_cache := Some d\<rparr>))
      else (m_dict_cache m, m))"

text \<open>\<open>__getitem__\<close> (lines 114-115) and \<open>get\<close> (lines 150-151): lookups in that dict.\<close>

definition getitem :: "decoder \<Rightarrow> WarcHeaderMap \<Rightarrow> string \<Rightarrow> (error + string) \<times> WarcHeaderMap" where
  "getitem dec m header_key =
     (case asdict dec m of
        (None, m') \<Rightarrow> (Inl TypeError, m')
      | (Some d, m') \<Rightarrow>
          (case map_of d header_key of None \<Rightarrow> (Inl KeyError, m') | Some v \<Rightarrow> (Inr v, m')))"

definition get_default ::
    "decoder \<Rightarrow> WarcHeaderMap \<Rightarrow> string \<Rightarrow> string option \<Rightarrow> (error + string option) \<times> WarcHeaderMap" where
  "get_default dec m item dflt =
     (case asdict dec m of
        (None, m') \<Rightarrow> (Inl TypeError, m')
      | (Some d, m') \<Rightarrow>
          (case map_of d item of None \<Rightarrow> (Inr dflt, m') | Some v \<Rightarrow> (Inr (Some v), m')))"

text \<open>\<open>clear\<close>, \<open>set_status_line\<close> (lines 192-197).\<close>

definition clear :: "WarcHeaderMap \<Rightarrow> WarcHeaderMap" where
  "clear m = m\<lparr>m_headers := [], m_dict_cache_stale := True\<rparr>"

definition set_status_line :: "WarcHeaderMap \<Rightarrow> bytes \<Rightarrow> WarcHeaderMap" where
  "set_status_line m status_line = m\<lparr>m_status_line := status_line\<rparr>"

text \<open>\<open>get_header\<close> (lines 199-208): the loop over the pairs, first match wins.\<close>

fun get_header_loop :: "(bytes \<times> bytes) list \<Rightarrow> bytes \<Rightarrow> bytes" where
  "get_header_loop [] header_key = []"
| "get_header_loop (h # hs) header_key =
     (if str_to_lower (fst h) = header_key then snd h else get_header_loop hs header_key)"

definition get_header :: "WarcHeaderMap \<Rightarrow> bytes \<Rightarrow> bytes" where
  "get_header m header_key = get_header_loop (m_headers m) (str_to_lower header_key)"

text \<open>\<open>set_header\<close> (lines 210-220): replaces the first match, appends otherwise.\<close>

fun set_header_loop :: "(bytes \<times> bytes) list \<Rightarrow> bytes \<Rightarrow> bytes \<Rightarrow> bytes \<Rightarrow> (bytes \<times> bytes) list" where
  "set_header_loop [] header_key_lower header_key header_value = [(header_key, header_value)]"
| "set_header_loop (h # hs) header_key_lower header_key header_value =
     (if str_to_lower (fst h) = header_key_lower then (fst h, header_value) # hs
      else h # set_header_loop hs header_key_lower header_key header_value)"

definition set_header :: "WarcHeaderMap \<Rightarrow> bytes \<Rightarrow> bytes \<Rightarrow> WarcHeaderMap" where
  "set_header m header_key header_value =
     m\<lparr>m_dict_cache_stale := True,
       m_headers := set_header_loop (m_headers m) (str_to_lower header_key) header_key header_value\<rparr>"

text \<open>\<open>append_header\<close> (lines 222-224) and \<open>add_continuation\<close> (lines 226-233).\<close>

definition append_header :: "WarcHeaderMap \<Rightarrow> bytes \<Rightarrow> bytes \<Rightarrow> WarcHeaderMap" where
  "append_header m header_key header_value =
     m\<lparr>m_headers := m_headers m @ [(header_key, header_value)], m_dict_cache_stale := True\<rparr>"

definition add_continuation :: "WarcHeaderMap \<Rightarrow> bytes \<Rightarrow> WarcHeaderMap" where
  "add_continuation m header_continuation_value =
     (if m_headers m \<noteq> []
      then m\<lparr>m_headers := butlast (m_headers m)
                 @ [(fst (last (m_headers m)),
                     snd (last (m_headers m)) @ '' '' @ header_continuation_value)],
             m_dict_cache_stale := True\<rparr>
      else m\<lparr>m_headers := [([], header_continuation_value)], m_dict_cache_stale := True\<rparr>)"

text \<open>
  \<open>status_code\<close> (lines 138-145), with Python's \<open>bytes.split(b' ')\<close> and \<open>bytes.isdigit\<close>.
  The last line applies \<open>int\<close> to the list \<open>s\<close>, which raises \<open>TypeError\<close> for every list.
\<close>

fun split_on :: "char \<Rightarrow> bytes \<Rightarrow> bytes list" where
  "split_on sep [] = [[]]"
| "split_on sep (c # cs) =
     (if c = sep then [] # split_on sep cs
      else (case split_on sep cs of
              [] \<Rightarrow> [[c]]
            | w # ws \<Rightarrow> (c # w) # ws))"

definition isdigit :: "bytes \<Rightarrow> bool" where
  "isdigit s = (s \<noteq> [] \<and> list_all is_digit s)"

definition int_of_list :: "bytes list \<Rightarrow> error + int" where
  "int_of_list s = Inl TypeError"

definition status_code :: "WarcHeaderMap \<Rightarrow> error + int option" where
  "status_code m =
     (if \<not> find_at_0 ''HTTP/'' (m_status_line m) then Inr None
      else let s = split_on CHR '' '' (m_status_line m)
           in if length s \<noteq> 3 then Inr None
              else if \<not> isdigit (s ! 1) then Inr None
              else (case int_of_list s of Inl e \<Rightarrow> Inl e | Inr v \<Rightarrow> Inr (Some v)))"

text \<open>\<open>WarcHeaderMap.write\<close> (lines 176-190): the bytes handed to the stream, in order.\<close>

definition header_line :: "bytes \<times> bytes \<Rightarrow> bytes" where
  "header_line h = (if fst h \<noteq> [] then fst h @ '': '' else []) @ snd h @ CRLF"

definition header_map_bytes :: "WarcHeaderMap \<Rightarrow> bytes" where
  "header_map_bytes m =
     (if m_status_line m \<noteq> [] then m_status_line m @ CRLF else [])
     @ concat (map header_line (m_headers m))"

section \<open>BufferedReader\<close>

text \<open>
  Modelled from the spec: the class \<open>BufferedReader\<close> is defined in stream_io, which is not
  among the sources. The spec (sections 3 and 6) gives its contract: \<open>read(n)\<close> returns up
  to \<open>n\<close> bytes; \<open>readline()\<close> returns a line up to and including its \<open>\n\<close>, and the empty
  string at EOF; \<open>set_limit(n)\<close> and \<open>reset_limit()\<close> set and lift a byte limit that
  \<open>read\<close> and \<open>readline\<close> respect as if it were EOF; \<open>consume(n)\<close> advances past up to
  \<open>n\<close> bytes, or to the limit without an argument; \<open>tell()\<close> reports the logical offset.

  \<open>br_data\<close> holds the bytes of the stream that the reader has not passed yet,
  \<open>br_pos\<close> the number of bytes it has passed, \<open>br_limit\<close> the bytes left under the limit.
\<close>

record BufferedReader =
  br_data :: bytes
  br_pos :: nat
  br_limit :: "nat option"
  br_closed :: bool

definition new_BufferedReader :: "bytes \<Rightarrow> BufferedReader" where
  "new_BufferedReader s = \<lparr>br_data = s, br_pos = 0, br_limit = None, br_closed = False\<rparr>"

definition br_avail :: "BufferedReader \<Rightarrow> bytes" where
  "br_avail r = (case br_limit r of None \<Rightarrow> br_data r | Some l \<Rightarrow> take l (br_data r))"

definition br_advance :: "nat \<Rightarrow> BufferedReader \<Rightarrow> BufferedReader" where
  "br_advance k r =
     r\<lparr>br_data := drop k (br_data r), br_pos := br_pos r + k,
       br_limit := map_option (\<lambda>l. l - k) (br_limit r)\<rparr>"

definition br_read :: "nat \<Rightarrow> BufferedReader \<Rightarrow> bytes \<times> BufferedReader" where
  "br_read n r = (let out = take n (br_avail r) in (out, br_advance (length out) r))"

definition line_of :: "bytes \<Rightarrow> bytes" where
  "line_of a = (case find_char CHR 0x0A a of None \<Rightarrow> a | Some i \<Rightarrow> take (Suc i) a)"

definition br_readline :: "BufferedReader \<Rightarrow> bytes \<times> BufferedReader" where
  "br_readline r = (let line = line_of (br_avail r) in (line, br_advance (length line) r))"

definition br_tell :: "BufferedReader \<Rightarrow> nat" where
  "br_tell r = br_pos r"

definition br_set_limit :: "nat \<Rightarrow> BufferedReader \<Rightarrow> BufferedReader" where
  "br_set_limit n r = r\<lparr>br_limit := Some n\<rparr>"

definition br_reset_limit :: "BufferedReader \<Rightarrow> BufferedReader" where
  "br_reset_limit r = r\<lparr>br_limit := None\<rparr>"

definition br_consume :: "nat option \<Rightarrow> BufferedReader \<Rightarrow> BufferedReader" where
  "br_consume n r =
     (case n of
        None \<Rightarrow> br_advance (length (br_avail r)) r
      | Some k \<Rightarrow> br_advance (min k (length (br_avail r))) r)"

definition br_close :: "BufferedReader \<Rightarrow> BufferedReader" where
  "br_close r = r\<lparr>br_closed := True\<rparr>"

lemma br_readline_shorter:
  "br_readline r = (line, r') \<Longrightarrow> line \<noteq> [] \<Longrightarrow> length (br_data r') < length (br_data r)"
  by (auto simp: br_readline_def br_advance_def Let_def br_avail_def line_of_def find_char_def
      split: option.splits if_splits)

lemma br_readline_not_longer:
  "br_readline r = (line, r') \<Longrightarrow> length (br_data r') \<le> length (br_data r)"
  by (auto simp: br_readline_def br_advance_def Let_def)

section \<open>The header-block parser\<close>

text \<open>
  \<open>parse_header_block\<close> (lines 437-472). The loop is the recursion; \<open>bytes_consumed\<close> is
  its accumulator. \<open>line[0]\<close> is read only after the test that the line is not empty.
\<close>

function parse_header_block_loop ::
    "BufferedReader \<Rightarrow> WarcHeaderMap \<Rightarrow> bool \<Rightarrow> nat \<Rightarrow> nat \<times> BufferedReader \<times> WarcHeaderMap" where
  "parse_header_block_loop reader target has_status_line bytes_consumed =
     (let (line, reader') = br_readline reader;
          bytes_consumed' = bytes_consumed + length line
      in if line = CRLF \<or> line = [] then (bytes_consumed', reader', target)
         else if isspace (hd line) then
           parse_header_block_loop reader' (add_continuation target (strip_str line))
             has_status_line bytes_consumed'
         else if has_status_line then
           parse_header_block_loop reader' (set_status_line target (strip_str line))
             False bytes_consumed'
         else (case find_char CHR '':'' line of
                 None \<Rightarrow>
                   parse_header_block_loop reader' (add_continuation target (strip_str line))
                     has_status_line bytes_consumed'
               | Some delim_pos \<Rightarrow>
                   parse_header_block_loop reader'
                     (append_header target
                        (strip_str (substr line 0 delim_pos))
                        (if length line \<le> delim_pos then []
                         else strip_str (substr_from line (delim_pos + 1))))
                     has_status_line bytes_consumed'))"
  by pat_completeness auto
termination
  by (relation "measure (\<lambda>(reader, target, has_status_line, bytes_consumed). length (br_data reader))")
     (auto dest: br_readline_shorter [OF sym])

declare parse_header_block_loop.simps [simp del]

definition parse_header_block ::
    "BufferedReader \<Rightarrow> WarcHeaderMap \<Rightarrow> bool \<Rightarrow> nat \<times> BufferedReader \<times> WarcHeaderMap" where
  "parse_header_block reader target has_status_line =
     parse_header_block_loop reader target has_status_line 0"

section \<open>WarcRecord\<close>

text \<open>
  The fields of \<open>WarcRecord\<close> as \<open>__cinit__\<close> sets them (lines 238-245); \<open>_reader\<close> is not
  set there, so it is \<open>None\<close> until line 558 or \<open>set_bytes_content\<close> binds it.

  A record that the iterator yields shares the iterator's reader (line 558): there is one
  reader object. The model keeps its state in the iterator and a copy in the record, and
  copies it back where the record's methods have moved it (see \<open>read_next_record\<close>).
\<close>

record WarcRecord =
  r_record_type :: WarcRecordType
  r_is_http :: bool
  r_http_parsed :: bool
  r_content_length :: nat
  r_headers :: WarcHeaderMap
  r_http_headers :: "WarcHeaderMap option"
  r_stream_pos :: nat
  r_reader :: "BufferedReader option"

definition new_WarcRecord :: WarcRecord where
  "new_WarcRecord =
     \<lparr>r_record_type = unknown, r_is_http = False, r_http_parsed = False,
      r_content_length = 0, r_headers = new_WarcHeaderMap ''utf-8'',
      r_http_headers = None, r_stream_pos = 0, r_reader = None\<rparr>"

text \<open>\<open>set_bytes_content\<close> (lines 305-307).\<close>

definition set_bytes_content :: "WarcRecord \<Rightarrow> bytes \<Rightarrow> WarcRecord" where
  "set_bytes_content r b =
     r\<lparr>r_reader := Some (new_BufferedReader b), r_content_length := length b\<rparr>"

text \<open>
  \<open>parse_http\<close> (lines 309-315). The subtraction is on \<open>size_t\<close> and wraps. Calling
  \<open>readline\<close> on a reader that is \<open>None\<close> is the error \<open>NullReader\<close>.
\<close>

definition size_t_sub :: "nat \<Rightarrow> nat \<Rightarrow> nat" where
  "size_t_sub a b = (if b \<le> a then a - b else size_max + a - b)"

definition parse_http :: "WarcRecord \<Rightarrow> error + WarcRecord" where
  "parse_http r =
     (if r_http_parsed r then Inr r
      else (case r_reader r of
              None \<Rightarrow> Inl NullReader
            | Some reader \<Rightarrow>
                (let (num_bytes, reader', http_headers) =
                       parse_header_block reader (new_WarcHeaderMap ''iso-8859-15'') True
                 in Inr (r\<lparr>r_http_headers := Some http_headers,
                          r_reader := Some reader',
                          r_content_length := size_t_sub (r_content_length r) num_bytes,
                          r_http_parsed := True\<rparr>))))"

text \<open>
  \<open>_verify_digest\<close>, \<open>verify_block_digest\<close> and \<open>verify_payload_digest\<close> (lines 395-433).
  The hash functions of \<open>hashlib\<close> and the codec of \<open>base64\<close> are the standard library's:
  the model takes them as the parameter \<open>lib\<close>. A hash object that was fed blocks one after
  the other returns the digest of their concatenation; \<open>b32decode\<close> raises on input that is
  not base32 (\<open>None\<close>).
\<close>

record digest_lib =
  lib_sha1 :: "bytes \<Rightarrow> bytes"
  lib_md5 :: "bytes \<Rightarrow> bytes"
  lib_sha256 :: "bytes \<Rightarrow> bytes"
  lib_b32encode :: "bytes \<Rightarrow> bytes"
  lib_b32decode :: "bytes \<Rightarrow> bytes option"

text \<open>The loop \<open>while True: block = reader.read(n); if block.empty(): break; ...\<close>\<close>

lemma br_read_avail_shorter:
  "br_read n r = (block, r') \<Longrightarrow> block \<noteq> [] \<Longrightarrow> length (br_avail r') < length (br_avail r)"
  by (cases "br_limit r")
     (auto simp: br_read_def br_advance_def br_avail_def Let_def min_def split: if_splits)

function read_blocks :: "nat \<Rightarrow> BufferedReader \<Rightarrow> bytes \<Rightarrow> bytes \<times> BufferedReader" where
  "read_blocks n reader acc =
     (let (block, reader') = br_read n reader
      in if block = [] then (acc, reader')
         else read_blocks n reader' (acc @ block))"
  by pat_completeness auto
termination
  by (relation "measure (\<lambda>(n, reader, acc). length (br_avail reader))")
     (auto dest: br_read_avail_shorter [OF sym])

declare read_blocks.simps [simp del]

definition verify_digest :: "digest_lib \<Rightarrow> WarcRecord \<Rightarrow> bytes \<Rightarrow> error + (bool \<times> WarcRecord)" where
  "verify_digest lib r base32_digest =
     (case find_char CHR '':'' base32_digest of
        None \<Rightarrow> Inr (False, r)
      | Some sep_pos \<Rightarrow>
          (let alg = substr base32_digest 0 sep_pos
           in case lib_b32decode lib (substr_from base32_digest (sep_pos + 1)) of
                None \<Rightarrow> Inl Base32Error
              | Some digest \<Rightarrow>
                  if alg \<noteq> ''sha1'' \<and> alg \<noteq> ''md5'' \<and> alg \<noteq> ''sha256'' then Inr (False, r)
                  else (case r_reader r of
                          None \<Rightarrow> Inl NullReader
                        | Some reader \<Rightarrow>
                            (let h = (if alg = ''sha1'' then lib_sha1 lib
                                      else if alg = ''md5'' then lib_md5 lib
                                      else lib_sha256 lib);
                                 (tee_stream, reader') = read_blocks 1024 reader []
                             in Inr (h tee_stream = digest,
                                    r\<lparr>r_reader := Some (new_BufferedReader tee_stream)\<rparr>)))))"

definition verify_block_digest :: "digest_lib \<Rightarrow> WarcRecord \<Rightarrow> error + (bool \<times> WarcRecord)" where
  "verify_block_digest lib r =
     verify_digest lib r (get_header (r_headers r) ''WARC-Block-Digest'')"

definition verify_payload_digest :: "digest_lib \<Rightarrow> WarcRecord \<Rightarrow> error + (bool \<times> WarcRecord)" where
  "verify_payload_digest lib r =
     (if \<not> r_http_parsed r then Inr (False, r)
      else verify_digest lib r (get_header (r_headers r) ''WARC-Payload-Digest''))"

section \<open>ArchiveIterator\<close>

text \<open>
  Modelled from the spec: the input stream classes (\<open>IOStream\<close>, \<open>CompressingStream\<close>) are
  defined in stream_io, which is not among the sources. The iterator uses a stream through
  its reader, through \<open>isinstance(stream, CompressingStream)\<close> and, for a compressing
  stream, through \<open>stream.tell()\<close> (section 6 of the spec): \<open>in_bytes\<close> are the bytes the
  reader gets from the stream, and \<open>in_tell n\<close> is what \<open>stream.tell()\<close> reports when the
  reader has passed \<open>n\<close> of them.
\<close>

record InStream =
  in_bytes :: bytes
  in_is_compressing :: bool
  in_tell :: "nat \<Rightarrow> nat"

datatype NextRecStatus = has_next | skip_next | eof

record ArchiveIterator =
  it_stream :: InStream
  it_reader :: BufferedReader
  it_record :: "WarcRecord option"
  it_parse_http :: bool
  it_record_type_filter :: "16 word"
  it_stream_is_compressed :: bool

text \<open>\<open>__cinit__\<close> (lines 477-483).\<close>

definition new_ArchiveIterator :: "InStream \<Rightarrow> bool \<Rightarrow> 16 word \<Rightarrow> ArchiveIterator" where
  "new_ArchiveIterator stream parse_http_flag record_types =
     \<lparr>it_stream = stream, it_reader = new_BufferedReader (in_bytes stream), it_record = None,
      it_parse_http = parse_http_flag, it_record_type_filter = record_types,
      it_stream_is_compressed = in_is_compressing stream\<rparr>"

text \<open>
  The loop over the version line (lines 510-529). The result is the stripped version line
  (\<open>None\<close> where the source returns \<open>eof\<close>), the reader and \<open>_stream_pos\<close>.
\<close>

function read_version_line ::
    "bool \<Rightarrow> BufferedReader \<Rightarrow> nat \<Rightarrow> bytes option \<times> BufferedReader \<times> nat" where
  "read_version_line stream_is_compressed reader stream_pos =
     (let (version_line, reader') = br_readline reader
      in if version_line = [] then (None, reader', stream_pos)
         else if version_line = CRLF \<or> version_line = LF then
           read_version_line stream_is_compressed reader'
             (if \<not> stream_is_compressed then stream_pos + (length version_line + 1)
              else stream_pos)
         else (let version_line' = strip_str version_line
               in if version_line' = ''WARC/1.0'' \<or> version_line' = ''WARC/1.1''
                  then (Some version_line', reader', stream_pos)
                  else (None, reader', stream_pos)))"
  by pat_completeness auto
termination
  by (relation "measure (\<lambda>(c, reader, stream_pos). length (br_data reader))")
     (auto dest: br_readline_shorter [OF sym])

declare read_version_line.simps [simp del]

text \<open>
  The scan of the parsed headers (lines 533-549). \<open>scan_header\<close> is one pass through the
  body of the \<open>for\<close> loop, \<open>scan_headers\<close> the loop with its \<open>break\<close>.
\<close>

definition scan_header :: "bytes \<times> bytes \<Rightarrow> WarcRecord \<Rightarrow> nat \<Rightarrow> error + (WarcRecord \<times> nat)" where
  "scan_header h r parse_count =
     (let hkey = str_to_lower (fst h)
      in if hkey = ''content-length'' then
           (case stoi (snd h) of
              Inl e \<Rightarrow> Inl e
            | Inr v \<Rightarrow> Inr (r\<lparr>r_content_length := int_to_size_t v\<rparr>, parse_count + 1))
         else if hkey = ''warc-type'' then
           Inr (r\<lparr>r_record_type := str_record_type_to_enum (snd h)\<rparr>, parse_count + 1)
         else if hkey = ''content-type'' \<and> find_at_0 ''application/http'' (snd h) then
           Inr (r\<lparr>r_is_http := True\<rparr>, parse_count + 1)
         else Inr (r, parse_count))"

fun scan_headers :: "(bytes \<times> bytes) list \<Rightarrow> WarcRecord \<Rightarrow> nat \<Rightarrow> error + WarcRecord" where
  "scan_headers [] r parse_count = Inr r"
| "scan_headers (h # hs) r parse_count =
     (case scan_header h r parse_count of
        Inl e \<Rightarrow> Inl e
      | Inr (r', parse_count') \<Rightarrow>
          if 3 \<le> parse_count' then Inr r' else scan_headers hs r' parse_count')"

text \<open>
  \<open>_read_next_record\<close> (lines 495-563), in the order of the source: \<open>start_reader\<close> is
  lines 496-498, \<open>start_pos\<close> lines 502-507, \<open>finish_record\<close> lines 551-563. An exception
  of \<open>stoi\<close> ends the call (\<open>Inl\<close>). \<open>record.parse_http()\<close> reads through the reader the
  record shares with the iterator, so the iterator's reader is the record's afterwards.
\<close>

definition start_reader :: "ArchiveIterator \<Rightarrow> BufferedReader" where
  "start_reader it =
     (if it_record it \<noteq> None
      then br_reset_limit (br_consume None (it_reader it))
      else it_reader it)"

definition start_pos :: "ArchiveIterator \<Rightarrow> BufferedReader \<Rightarrow> nat" where
  "start_pos it reader =
     (if it_stream_is_compressed it
      then in_tell (it_stream it) (br_tell reader)
      else br_tell reader)"

definition finish_record ::
    "ArchiveIterator \<Rightarrow> BufferedReader \<Rightarrow> WarcRecord \<Rightarrow> error + (NextRecStatus \<times> ArchiveIterator)" where
  "finish_record it reader record =
     (if type_bits (r_record_type record) AND it_record_type_filter it = 0 then
        Inr (skip_next,
             it\<lparr>it_reader := br_consume (Some (r_content_length record)) (br_reset_limit reader),
                it_record := None\<rparr>)
      else
        (let reader' = br_set_limit (r_content_length record) reader;
             record' = record\<lparr>r_reader := Some reader'\<rparr>
         in if it_parse_http it \<and> r_is_http record' then
              (case parse_http record' of
                 Inl e \<Rightarrow> Inl e
               | Inr record'' \<Rightarrow>
                   Inr (has_next,
                        it\<lparr>it_reader := (case r_reader record'' of
                                           Some reader'' \<Rightarrow> reader''
                                         | None \<Rightarrow> reader'),
                           it_record := Some record''\<rparr>))
            else Inr (has_next, it\<lparr>it_reader := reader', it_record := Some record'\<rparr>)))"

definition read_next_record :: "ArchiveIterator \<Rightarrow> error + (NextRecStatus \<times> ArchiveIterator)" where
  "read_next_record it =
     (let reader0 = start_reader it;
          record0 = new_WarcRecord\<lparr>r_stream_pos := start_pos it reader0\<rparr>;
          (version_line, reader1, stream_pos) =
            read_version_line (it_stream_is_compressed it) reader0 (r_stream_pos record0);
          record1 = record0\<lparr>r_stream_pos := stream_pos\<rparr>
      in case version_line of
           None \<Rightarrow> Inr (eof, it\<lparr>it_reader := reader1, it_record := Some record1\<rparr>)
         | Some status \<Rightarrow>
             (let (n, reader2, headers) =
                    parse_header_block reader1 (set_status_line (r_headers record1) status) False;
                  record2 = record1\<lparr>r_headers := headers\<rparr>
              in case scan_headers (m_headers headers) record2 0 of
                   Inl e \<Rightarrow> Inl e
                 | Inr record3 \<Rightarrow> finish_record it reader2 record3))"

section \<open>The reader only moves forward\<close>

lemma br_avail_advance: "br_avail (br_advance k r) = drop k (br_avail r)"
  by (cases "br_limit r") (simp_all add: br_avail_def br_advance_def drop_take)

lemma br_advance_advance: "br_advance a (br_advance b r) = br_advance (b + a) r"
  by (cases "br_limit r") (simp_all add: br_advance_def add.assoc add.commute)

lemma br_advance_0: "br_advance 0 r = r"
  by (cases "br_limit r") (simp_all add: br_advance_def)

lemma length_line_of: "length (line_of a) \<le> length a"
  by (simp add: line_of_def split: option.splits)

lemma br_readline_advance:
  "br_readline r = (line_of (br_avail r), br_advance (length (line_of (br_avail r))) r)"
  by (simp add: br_readline_def Let_def)

lemma phb_stop:
  "br_readline rd = (line, rd1) \<Longrightarrow> line = CRLF \<or> line = [] \<Longrightarrow>
     parse_header_block_loop rd t h n = (n + length line, rd1, t)"
  by (subst parse_header_block_loop.simps) auto

lemma phb_rec:
  "br_readline rd = (line, rd1) \<Longrightarrow> line \<noteq> CRLF \<Longrightarrow> line \<noteq> [] \<Longrightarrow>
     \<exists>tg hs. parse_header_block_loop rd t h n = parse_header_block_loop rd1 tg hs (n + length line)"
  by (subst parse_header_block_loop.simps) (auto simp: Let_def split: option.splits)

lemma phb_within:
  "parse_header_block_loop rd t h n = (n', rd', t') \<Longrightarrow>
     \<exists>k. k \<le> length (br_avail rd) \<and> rd' = br_advance k rd \<and> n' = n + k"
proof (induction "length (br_data rd)" arbitrary: rd t h n rule: less_induct)
  case less
  define line where "line = line_of (br_avail rd)"
  define rd1 where "rd1 = br_advance (length line) rd"
  have rl: "br_readline rd = (line, rd1)"
    by (simp add: br_readline_advance line_def rd1_def)
  have ll: "length line \<le> length (br_avail rd)"
    by (simp add: line_def length_line_of)
  show ?case
  proof (cases "line = CRLF \<or> line = []")
    case True
    from phb_stop[OF rl True] less.prems have "n' = n + length line" "rd' = rd1" by simp_all
    then show ?thesis using ll by (auto simp: rd1_def)
  next
    case False
    then obtain tg hs where
      "parse_header_block_loop rd t h n = parse_header_block_loop rd1 tg hs (n + length line)"
      using phb_rec[OF rl, of t h n] by auto
    then have r: "parse_header_block_loop rd1 tg hs (n + length line) = (n', rd', t')"
      using less.prems by simp
    have "length (br_data rd1) < length (br_data rd)"
      using br_readline_shorter[OF rl] False by simp
    from less.hyps[OF this r] obtain k where k: "k \<le> length (br_avail rd1)"
      "rd' = br_advance k rd1" "n' = n + length line + k" by blast
    have "length line + k \<le> length (br_avail rd)"
      using k(1) ll by (simp add: rd1_def br_avail_advance)
    moreover have "rd' = br_advance (length line + k) rd"
      using k(2) by (simp add: rd1_def br_advance_advance)
    ultimately show ?thesis using k(3) by (intro exI[of _ "length line + k"]) simp
  qed
qed


lemma rvl_within:
  "read_version_line c rd sp = (v, rd', sp') \<Longrightarrow>
     \<exists>k. k \<le> length (br_avail rd) \<and> rd' = br_advance k rd \<and> (v \<noteq> None \<longrightarrow> 0 < k)"
proof (induction "length (br_data rd)" arbitrary: rd sp rule: less_induct)
  case less
  define line where "line = line_of (br_avail rd)"
  define rd1 where "rd1 = br_advance (length line) rd"
  have rl: "br_readline rd = (line, rd1)"
    by (simp add: br_readline_advance line_def rd1_def)
  have ll: "length line \<le> length (br_avail rd)"
    by (simp add: line_def length_line_of)
  show ?case
  proof (cases "line \<noteq> [] \<and> (line = CRLF \<or> line = LF)")
    case False
    then have "rd' = rd1" "v \<noteq> None \<longrightarrow> line \<noteq> []"
      using less.prems rl
      by (subst (asm) read_version_line.simps; auto simp: Let_def split: if_splits)+
    then show ?thesis using ll by (auto simp: rd1_def)
  next
    case True
    then obtain sp1 where r: "read_version_line c rd1 sp1 = (v, rd', sp')"
      using less.prems rl
      by (subst (asm) read_version_line.simps) (auto simp: Let_def split: if_splits)
    have "length (br_data rd1) < length (br_data rd)"
      using br_readline_shorter[OF rl] True by auto
    from less.hyps[OF this r] obtain k where k: "k \<le> length (br_avail rd1)"
      "rd' = br_advance k rd1" "v \<noteq> None \<longrightarrow> 0 < k" by blast
    have "length line + k \<le> length (br_avail rd)"
      using k(1) ll by (simp add: rd1_def br_avail_advance)
    moreover have "rd' = br_advance (length line + k) rd"
      using k(2) by (simp add: rd1_def br_advance_advance)
    ultimately show ?thesis using k(3) by (intro exI[of _ "length line + k"]) auto
  qed
qed

lemma length_br_avail_le: "length (br_avail r) \<le> length (br_data r)"
  by (simp add: br_avail_def split: option.splits)

lemma br_data_advance [simp]: "br_data (br_advance k r) = drop k (br_data r)"
  by (simp add: br_advance_def)

lemma br_data_misc [simp]:
  "br_data (br_reset_limit r) = br_data r"
  "br_data (br_set_limit n r) = br_data r"
  "br_data (br_close r) = br_data r"
  by (simp_all add: br_reset_limit_def br_set_limit_def br_close_def)

lemma br_data_consume [simp]:
  "br_data (br_consume n r) =
     drop (case n of None \<Rightarrow> length (br_avail r) | Some k \<Rightarrow> min k (length (br_avail r))) (br_data r)"
  by (simp add: br_consume_def split: option.splits)

lemma br_data_read_le: "length (br_data (snd (br_read n r))) \<le> length (br_data r)"
  by (simp add: br_read_def Let_def)

lemma parse_http_data_le:
  "parse_http r = Inr r' \<Longrightarrow> r_reader r = Some rd \<Longrightarrow>
     \<exists>rd'. r_reader r' = Some rd' \<and> length (br_data rd') \<le> length (br_data rd)"
  by (auto simp: parse_http_def parse_header_block_def split: if_splits prod.splits
      dest!: phb_within)

lemma finish_record_data_le:
  "finish_record it rd r = Inr (status, it') \<Longrightarrow>
     length (br_data (it_reader it')) \<le> length (br_data rd)"
  by (auto simp: finish_record_def Let_def
      split: sum.splits if_splits option.splits dest!: parse_http_data_le)

lemma read_next_record_shorter:
  assumes "read_next_record it = Inr (status, it')" and "status \<noteq> eof"
  shows "length (br_data (it_reader it')) < length (br_data (it_reader it))"
proof -
  have r0: "length (br_data (start_reader it)) \<le> length (br_data (it_reader it))"
    by (simp add: start_reader_def)
  obtain v reader1 sp where rv: "read_version_line (it_stream_is_compressed it) (start_reader it)
      (start_pos it (start_reader it)) = (v, reader1, sp)"
    using prod_cases3 by blast
  from assms rv obtain status_line where v: "v = Some status_line"
    by (cases v) (auto simp: read_next_record_def Let_def)
  from rvl_within[OF rv] v obtain k where k: "k \<le> length (br_avail (start_reader it))"
     "reader1 = br_advance k (start_reader it)" "0 < k" by auto
  have r1: "length (br_data reader1) < length (br_data (start_reader it))"
    using k length_br_avail_le[of "start_reader it"] by simp
  obtain n reader2 headers where ph: "parse_header_block reader1
     (set_status_line (r_headers (new_WarcRecord\<lparr>r_stream_pos := sp\<rparr>)) status_line) False = (n, reader2, headers)"
    using prod_cases3 by blast
  have r2: "length (br_data reader2) \<le> length (br_data reader1)"
    using phb_within[OF ph[unfolded parse_header_block_def]] by auto
  have "length (br_data (it_reader it')) \<le> length (br_data reader2)"
    using assms(1) rv v ph
    by (auto simp: read_next_record_def Let_def split: sum.splits dest: finish_record_data_le)
  then show ?thesis using r0 r1 r2 by simp
qed

lemma read_next_record_read_shorter:
  assumes "read_next_record it = Inr (status, it')" and "status \<noteq> eof"
  shows "length (br_data (snd (br_read k (it_reader it')))) < length (br_data (it_reader it))"
  using read_next_record_shorter[OF assms] br_data_read_le[of k "it_reader it'"] by simp

section \<open>Iteration\<close>

text \<open>
  \<open>__iter__\<close> (lines 485-493) together with its caller, \<open>for record in iterator: ...\<close>.
  The generator yields \<open>self.record\<close>; the caller's loop body runs before the next call of
  \<open>_read_next_record\<close>. \<open>body record s\<close> is that loop body: from the yielded record (whose
  \<open>r_reader\<close> is the state of the shared reader at the yield) and the caller's own state \<open>s\<close>
  it ends with \<open>Inr (k, s')\<close>, having read \<open>k\<close> bytes through \<open>record.reader\<close> and reached
  the state \<open>s'\<close>, or with an exception, which ends the loop.
\<close>

function for_each_record ::
    "(WarcRecord option \<Rightarrow> 's \<Rightarrow> error + (nat \<times> 's)) \<Rightarrow> ArchiveIterator \<Rightarrow> 's
       \<Rightarrow> error + ('s \<times> ArchiveIterator)" where
  "for_each_record body it s =
     (case read_next_record it of
        Inl e \<Rightarrow> Inl e
      | Inr (status, it') \<Rightarrow>
          if status = has_next then
            (case body (it_record it') s of
               Inl e \<Rightarrow> Inl e
             | Inr (k, s') \<Rightarrow>
                 for_each_record body (it'\<lparr>it_reader := snd (br_read k (it_reader it'))\<rparr>) s')
          else if status = eof then
            Inr (s, it'\<lparr>it_reader := br_close (it_reader it')\<rparr>)
          else for_each_record body it' s)"
  by pat_completeness auto
termination
  by (relation "measure (\<lambda>(body, it, s). length (br_data (it_reader it)))")
     (auto intro: read_next_record_read_shorter read_next_record_shorter)

declare for_each_record.simps [simp del]

text \<open>The caller that keeps every yielded object and reads \<open>demand\<close> bytes of each.\<close>

definition collect :: "(WarcRecord option \<Rightarrow> nat) \<Rightarrow> WarcRecord option \<Rightarrow> WarcRecord option list
    \<Rightarrow> error + (nat \<times> WarcRecord option list)" where
  "collect demand record ys = Inr (demand record, ys @ [record])"

section \<open>Writing a record\<close>

text \<open>
  Modelled from the spec: the output stream classes are defined in stream_io, which is not
  among the sources. Section 6 of the spec gives \<open>write(buf, len) -> size\<close> and, for a
  \<open>CompressingStream\<close>, \<open>begin_member() -> size\<close> and \<open>end_member() -> size\<close>. \<open>os_data\<close> are
  the bytes handed to \<open>write\<close> so far, in order; the sizes the stream reports are its own
  (\<open>os_write_ret n\<close> for a call with \<open>n\<close> bytes). \<open>os_kind\<close> is what the tests of lines
  362-373 find: an \<open>IOStream\<close>, a \<open>CompressingStream\<close>, another object with a \<open>write\<close>
  attribute, or none of these.
\<close>

datatype stream_kind = PlainIOStream | CompressingStream | PyWritable | NotAStream

record OutStream =
  os_kind :: stream_kind
  os_data :: bytes
  os_write_ret :: "nat \<Rightarrow> nat"
  os_begin_member_ret :: nat
  os_end_member_ret :: nat

definition os_write :: "bytes \<Rightarrow> OutStream \<Rightarrow> nat \<times> OutStream" where
  "os_write b stream = (os_write_ret stream (length b), stream\<lparr>os_data := os_data stream @ b\<rparr>)"

text \<open>\<open>WarcHeaderMap.write\<close> (lines 176-190), call by call.\<close>

fun write_headers_loop :: "(bytes \<times> bytes) list \<Rightarrow> OutStream \<Rightarrow> nat \<Rightarrow> nat \<times> OutStream" where
  "write_headers_loop [] stream bytes_written = (bytes_written, stream)"
| "write_headers_loop (h # hs) stream bytes_written =
     (let (n1, stream1) = (if fst h \<noteq> []
                           then (let (a, sa) = os_write (fst h) stream;
                                     (b, sb) = os_write '': '' sa
                                 in (a + b, sb))
                           else (0, stream));
          (n2, stream2) = os_write (snd h) stream1;
          (n3, stream3) = os_write CRLF stream2
      in write_headers_loop hs stream3 (bytes_written + n1 + n2 + n3))"

definition header_map_write :: "WarcHeaderMap \<Rightarrow> OutStream \<Rightarrow> nat \<times> OutStream" where
  "header_map_write m stream =
     (let (n0, stream0) = (if m_status_line m \<noteq> []
                           then (let (a, sa) = os_write (m_status_line m) stream;
                                     (b, sb) = os_write CRLF sa
                                 in (a + b, sb))
                           else (0, stream))
      in write_headers_loop (m_headers m) stream0 n0)"

text \<open>The loop of lines 383-387: blocks of \<open>chunk_size\<close> go from the reader to the stream.\<close>

function copy_blocks ::
    "nat \<Rightarrow> BufferedReader \<Rightarrow> OutStream \<Rightarrow> nat \<Rightarrow> nat \<times> BufferedReader \<times> OutStream" where
  "copy_blocks chunk_size in_reader stream bytes_written =
     (let (data, in_reader') = br_read chunk_size in_reader
      in if data = [] then (bytes_written, in_reader', stream)
         else (let (n, stream') = os_write data stream
               in copy_blocks chunk_size in_reader' stream' (bytes_written + n)))"
  by pat_completeness auto
termination
  by (relation "measure (\<lambda>(c, reader, stream, n). length (br_avail reader))")
     (auto dest: br_read_avail_shorter [OF sym])

declare copy_blocks.simps [simp del]

text \<open>
  \<open>_write_impl\<close> (lines 357-393). A call of a method on \<open>None\<close> (the reader of a record
  that has none, the HTTP headers of a record that has none) is the error \<open>NullReader\<close>.
\<close>

definition write_impl ::
    "WarcRecord \<Rightarrow> BufferedReader option \<Rightarrow> OutStream \<Rightarrow> bool \<Rightarrow> nat
       \<Rightarrow> error + (nat \<times> BufferedReader option \<times> OutStream)" where
  "write_impl r in_reader out_stream write_payload_headers chunk_size =
     (if os_kind out_stream = NotAStream then Inr (0, in_reader, out_stream)
      else
        (let compress_member_started = (os_kind out_stream = CompressingStream);
             n0 = (if compress_member_started then os_begin_member_ret out_stream else 0);
             (n1, s1) = header_map_write (r_headers r) out_stream;
             (n2, s2) = os_write CRLF s1
         in case (if write_payload_headers \<and> r_http_parsed r
                  then (case r_http_headers r of
                          None \<Rightarrow> Inl NullReader
                        | Some hh \<Rightarrow>
                            (let (a, sa) = header_map_write hh s2;
                                 (b, sb) = os_write CRLF sa
                             in Inr (a + b, sb)))
                  else Inr (0, s2)) of
              Inl e \<Rightarrow> Inl e
            | Inr (n3, s3) \<Rightarrow>
                (case in_reader of
                   None \<Rightarrow> Inl NullReader
                 | Some reader \<Rightarrow>
                     (let (n4, reader', s4) = copy_blocks chunk_size reader s3 (n0 + n1 + n2 + n3);
                          (n5, s5) = os_write CRLF s4;
                          n6 = (if compress_member_started then os_end_member_ret s5 else 0)
                      in Inr (n4 + n5 + n6, Some reader', s5)))))"

text \<open>
  \<open>WarcRecord.write\<close> (lines 318-355). \<open>block_buf\<close> is the \<open>BytesIOStream\<close> of line 324: the bytes
  written to it; after \<open>seek(0)\<close> it is read from its start, as a reader over those bytes.
  The SHA-1 objects are fed the same bytes in the same order, so their digests are those of
  the whole block and of the payload.
\<close>

definition record_write ::
    "digest_lib \<Rightarrow> WarcRecord \<Rightarrow> OutStream \<Rightarrow> bool \<Rightarrow> nat
       \<Rightarrow> error + (nat \<times> WarcRecord \<times> OutStream)" where
  "record_write lib r stream checksum_data chunk_size =
     (if \<not> checksum_data \<and> \<not> r_http_parsed r then
        (case write_impl r (r_reader r) stream True chunk_size of
           Inl e \<Rightarrow> Inl e
         | Inr (n, reader', stream') \<Rightarrow> Inr (n, r\<lparr>r_reader := reader'\<rparr>, stream'))
      else
        (case (if r_http_parsed r
               then (case r_http_headers r of
                       None \<Rightarrow> Inl NullReader
                     | Some hh \<Rightarrow> Inr (header_map_bytes hh @ CRLF))
               else Inr []) of
           Inl e \<Rightarrow> Inl e
         | Inr block_head \<Rightarrow>
             (case r_reader r of
                None \<Rightarrow> Inl NullReader
              | Some reader \<Rightarrow>
                  (let (payload_data, reader') = read_blocks chunk_size reader [];
                       block_buf = block_head @ payload_data;
                       h1 = set_header (r_headers r) ''Content-Length'' (to_string (length block_buf));
                       h2 = (if checksum_data \<and> r_http_parsed r
                             then set_header h1 ''WARC-Payload-Digest''
                                    (''sha1:'' @ lib_b32encode lib (lib_sha1 lib payload_data))
                             else h1);
                       h3 = (if checksum_data
                             then set_header h2 ''WARC-Block-Digest''
                                    (''sha1:'' @ lib_b32encode lib (lib_sha1 lib block_buf))
                             else h2);
                       r' = r\<lparr>r_headers := h3, r_reader := Some reader'\<rparr>
                   in case write_impl r' (Some (new_BufferedReader block_buf)) stream False chunk_size of
                        Inl e \<Rightarrow> Inl e
                      | Inr (n, block_reader, stream') \<Rightarrow> Inr (n, r', stream')))))"

section \<open>The wire format\<close>

text \<open>
  The layout of a record on the wire, as section 4.4 of the spec gives it: the version
  line, one line \<open>name: value\<close> per header, a blank line, the payload and \<open>\r\n\<close>, every
  line ending in \<open>\r\n\<close>. A record in this layout is described by its version, its header
  fields and its payload. It is well-formed (\<open>wf_wire\<close>) when the version is \<open>WARC/1.0\<close> or
  \<open>WARC/1.1\<close>; every name and value is non-empty, free of \<open>\n\<close> and of whitespace at its
  ends, and no name holds a colon; \<open>Content-Length\<close>, \<open>WARC-Type\<close> and \<open>Content-Type\<close>
  each occur at most once (names compared without case); and \<open>Content-Length\<close> is read by
  \<open>stoi\<close> as the length of the payload (without the header the payload is empty).

  A stream is a list of entries, each the blank lines (\<open>\r\n\<close> or \<open>\n\<close>) before a record
  and the record, followed by trailing blank lines. \<open>wire_type\<close> and \<open>wire_is_http\<close> are
  what the \<open>WARC-Type\<close> and \<open>Content-Type\<close> headers of a record say; \<open>yield_of p y w\<close>
  says that the yielded object \<open>y\<close> is the record \<open>w\<close> as an iterator with \<open>parse_http = p\<close>
  hands it out. \<open>write_each\<close> is the loop body \<open>record.write(out, checksum_data=False)\<close>.
  The remaining definitions (\<open>len_of\<close>, \<open>type_of\<close>, \<open>http_of\<close>, \<open>tgt\<close>, \<open>beyond_limit\<close>,
  \<open>positioned\<close>, \<open>chain\<close>) state the invariants of the proofs.
\<close>

definition field_line :: "bytes \<times> bytes \<Rightarrow> bytes" where
  "field_line h = fst h @ '': '' @ snd h @ CRLF"

definition wf_name :: "bytes \<Rightarrow> bool" where
  "wf_name k = (k \<noteq> [] \<and> CHR '':'' \<notin> set k \<and> CHR 0x0A \<notin> set k
                \<and> \<not> isspace (hd k) \<and> \<not> isspace (last k))"

definition wf_value :: "bytes \<Rightarrow> bool" where
  "wf_value v = (v \<noteq> [] \<and> CHR 0x0A \<notin> set v \<and> \<not> isspace (hd v) \<and> \<not> isspace (last v))"

definition wf_field :: "bytes \<times> bytes \<Rightarrow> bool" where
  "wf_field h = (wf_name (fst h) \<and> wf_value (snd h))"

definition blank_line :: "bytes \<Rightarrow> bool" where
  "blank_line l = (l = CRLF \<or> l = LF)"

definition version_ok :: "bytes \<Rightarrow> bool" where
  "version_ok v = (v = ''WARC/1.0'' \<or> v = ''WARC/1.1'')"

definition named :: "bytes \<Rightarrow> bytes \<times> bytes \<Rightarrow> bool" where
  "named n h = (str_to_lower (fst h) = n)"

definition len_of :: "(bytes \<times> bytes) list \<Rightarrow> nat \<Rightarrow> nat" where
  "len_of hs d = (case filter (named ''content-length'') hs of
                    [] \<Rightarrow> d
                  | h # _ \<Rightarrow> (case stoi (snd h) of Inr v \<Rightarrow> int_to_size_t v | Inl e \<Rightarrow> d))"

definition type_of :: "(bytes \<times> bytes) list \<Rightarrow> WarcRecordType \<Rightarrow> WarcRecordType" where
  "type_of hs d = (case filter (named ''warc-type'') hs of
                    [] \<Rightarrow> d
                  | h # _ \<Rightarrow> str_record_type_to_enum (snd h))"

definition http_of :: "(bytes \<times> bytes) list \<Rightarrow> bool \<Rightarrow> bool" where
  "http_of hs d = (case filter (named ''content-type'') hs of
                    [] \<Rightarrow> d
                  | h # _ \<Rightarrow> d \<or> find_at_0 ''application/http'' (snd h))"

definition tgt :: "(bytes \<times> bytes) list \<Rightarrow> WarcRecord \<Rightarrow> WarcRecord" where
  "tgt hs r = r\<lparr>r_content_length := len_of hs (r_content_length r),
                  r_record_type := type_of hs (r_record_type r),
                  r_is_http := http_of hs (r_is_http r)\<rparr>"

record wire_record =
  w_version :: bytes
  w_fields :: "(bytes \<times> bytes) list"
  w_payload :: bytes

definition head_bytes :: "wire_record \<Rightarrow> bytes" where
  "head_bytes w = w_version w @ CRLF @ concat (map field_line (w_fields w)) @ CRLF"

definition wire_bytes :: "wire_record \<Rightarrow> bytes" where
  "wire_bytes w = head_bytes w @ w_payload w @ CRLF"

definition wire_type :: "wire_record \<Rightarrow> WarcRecordType" where
  "wire_type w = (case filter (named ''warc-type'') (w_fields w) of
                    [] \<Rightarrow> unknown
                  | h # _ \<Rightarrow> str_record_type_to_enum (snd h))"

definition wire_is_http :: "wire_record \<Rightarrow> bool" where
  "wire_is_http w = (case filter (named ''content-type'') (w_fields w) of
                       [] \<Rightarrow> False
                     | h # _ \<Rightarrow> find_at_0 ''application/http'' (snd h))"

definition wf_wire :: "wire_record \<Rightarrow> bool" where
  "wf_wire w =
     (version_ok (w_version w)
      \<and> list_all wf_field (w_fields w)
      \<and> length (filter (named ''content-length'') (w_fields w)) \<le> 1
      \<and> length (filter (named ''warc-type'') (w_fields w)) \<le> 1
      \<and> length (filter (named ''content-type'') (w_fields w)) \<le> 1
      \<and> list_all (\<lambda>h. named ''content-length'' h \<longrightarrow> stoi (snd h) = Inr (int (length (w_payload w))))
           (w_fields w)
      \<and> (filter (named ''content-length'') (w_fields w) = [] \<longrightarrow> w_payload w = []))"

definition wire_headers :: "wire_record \<Rightarrow> WarcHeaderMap" where
  "wire_headers w =
     \<lparr>m_enc = ''utf-8'', m_status_line = w_version w, m_headers = w_fields w,
      m_dict_cache = None, m_dict_cache_stale = True\<rparr>"

definition beyond_limit :: "BufferedReader \<Rightarrow> bytes" where
  "beyond_limit rd = (case br_limit rd of None \<Rightarrow> [] | Some l \<Rightarrow> drop l (br_data rd))"

definition positioned :: "ArchiveIterator \<Rightarrow> bytes \<Rightarrow> bool" where
  "positioned it S =
     (\<exists>bl. list_all blank_line bl \<and> br_limit (start_reader it) = None
           \<and> br_data (start_reader it) = concat bl @ S)"

definition selected :: "16 word \<Rightarrow> wire_record \<Rightarrow> bool" where
  "selected F w = (type_bits (wire_type w) AND F \<noteq> 0)"

definition yield_of :: "bool \<Rightarrow> WarcRecord \<Rightarrow> wire_record \<Rightarrow> bool" where
  "yield_of p y w =
     (r_headers y = wire_headers w \<and> r_record_type y = wire_type w
      \<and> r_is_http y = wire_is_http w
      \<and> (if p \<and> wire_is_http w
          then r_http_parsed y \<and> r_http_headers y \<noteq> None
               \<and> r_content_length y \<le> length (w_payload w)
          else \<not> r_http_parsed y \<and> r_http_headers y = None
               \<and> r_content_length y = length (w_payload w)
               \<and> map_option br_avail (r_reader y) = Some (w_payload w)))"

fun chain :: "('a \<Rightarrow> 's \<Rightarrow> 's \<Rightarrow> bool) \<Rightarrow> 'a list \<Rightarrow> 's \<Rightarrow> 's \<Rightarrow> bool" where
  "chain R [] s sf = (sf = s)"
| "chain R (w # ws) s sf = (\<exists>s'. R w s s' \<and> chain R ws s' sf)"

fun stream_bytes :: "(bytes list \<times> wire_record) list \<Rightarrow> bytes list \<Rightarrow> bytes" where
  "stream_bytes [] tr = concat tr"
| "stream_bytes (e # es) tr = concat (fst e) @ wire_bytes (snd e) @ stream_bytes es tr"

definition wf_entry :: "bytes list \<times> wire_record \<Rightarrow> bool" where
  "wf_entry e = (list_all blank_line (fst e) \<and> wf_wire (snd e))"

definition reader_moved :: "WarcRecord \<Rightarrow> WarcRecord \<Rightarrow> nat" where
  "reader_moved r r' =
     (case (r_reader r, r_reader r') of
        (Some a, Some b) \<Rightarrow> br_pos b - br_pos a
      | _ \<Rightarrow> 0)"

definition write_each ::
    "digest_lib \<Rightarrow> nat \<Rightarrow> WarcRecord option \<Rightarrow> OutStream \<Rightarrow> error + (nat \<times> OutStream)" where
  "write_each lib chunk_size record out =
     (case record of
        None \<Rightarrow> Inl NullReader
      | Some r \<Rightarrow>
          (case record_write lib r out False chunk_size of
             Inl e \<Rightarrow> Inl e
           | Inr (n, r', out') \<Rightarrow> Inr (reader_moved r r', out')))"

definition without_blank_lines :: "(bytes list \<times> wire_record) list \<Rightarrow> (bytes list \<times> wire_record) list" where
  "without_blank_lines es = map (\<lambda>e. ([], snd e)) es"

section \<open>Facts about the header map, the reader and the writer\<close>

lemma map_of_dict_setitem:
  "map_of (dict_setitem k v d) key = (if key = k then Some v else map_of d key)"
  by (induction d) auto

lemma find_snoc:
  "find P (xs @ [x]) = (case find P xs of None \<Rightarrow> (if P x then Some x else None) | Some y \<Rightarrow> Some y)"
  by (induction xs) auto

lemma map_of_foldl_setitem:
  "map_of (foldl (\<lambda>d h. dict_setitem (f (fst h)) (f (snd h)) d) d0 hs) key =
     (case find (\<lambda>h. f (fst h) = key) (rev hs) of
        None \<Rightarrow> map_of d0 key
      | Some h \<Rightarrow> Some (f (snd h)))"
  by (induction hs arbitrary: d0)
     (auto simp: find_snoc map_of_dict_setitem split: option.splits)

lemma map_of_build_dict:
  "map_of (build_dict dec e hs) key =
     (case find (\<lambda>h. dec e (fst h) = key) (rev hs) of
        None \<Rightarrow> None
      | Some h \<Rightarrow> Some (dec e (snd h)))"
  unfolding build_dict_def by (simp add: map_of_foldl_setitem split: option.splits)

lemma get_header_loop_find:
  "get_header_loop hs k = (case find (\<lambda>h. str_to_lower (fst h) = k) hs of None \<Rightarrow> [] | Some h \<Rightarrow> snd h)"
  by (induction hs) auto

lemma br_pos_advance [simp]: "br_pos (br_advance k r) = br_pos r + k"
  by (simp add: br_advance_def)

lemma br_read_eq: "br_read n r = (take n (br_avail r), br_advance (min n (length (br_avail r))) r)"
  by (simp add: br_read_def Let_def min.commute)

lemma read_blocks_all:
  "0 < n \<Longrightarrow> read_blocks n rd acc = (acc @ br_avail rd, br_advance (length (br_avail rd)) rd)"
proof (induction "length (br_avail rd)" arbitrary: rd acc rule: less_induct)
  case less
  show ?case
  proof (cases "br_avail rd = []")
    case True
    then show ?thesis by (subst read_blocks.simps) (simp add: br_read_eq)
  next
    case False
    define k where "k = min n (length (br_avail rd))"
    have k: "0 < k" "k \<le> length (br_avail rd)" using False less.prems by (auto simp: k_def)
    have sh: "length (br_avail (br_advance k rd)) < length (br_avail rd)"
      using k by (simp add: br_avail_advance)
    have "read_blocks n rd acc = read_blocks n (br_advance k rd) (acc @ take n (br_avail rd))"
      using False less.prems by (subst read_blocks.simps) (simp add: br_read_eq k_def)
    also have "\<dots> = (acc @ take n (br_avail rd) @ drop k (br_avail rd),
                      br_advance (length (drop k (br_avail rd))) (br_advance k rd))"
      using less.hyps[OF sh less.prems] by (simp add: br_avail_advance)
    also have "take n (br_avail rd) @ drop k (br_avail rd) = br_avail rd"
      by (simp add: k_def min_def)
    finally show ?thesis using k by (simp add: br_advance_advance)
  qed
qed

lemma copy_blocks_all:
  "0 < n \<Longrightarrow> \<exists>m. copy_blocks n rd out bw =
      (m, br_advance (length (br_avail rd)) rd, out\<lparr>os_data := os_data out @ br_avail rd\<rparr>)"
proof (induction "length (br_avail rd)" arbitrary: rd out bw rule: less_induct)
  case less
  show ?case
  proof (cases "br_avail rd = []")
    case True
    then show ?thesis by (subst copy_blocks.simps) (simp add: br_read_eq)
  next
    case False
    define k where "k = min n (length (br_avail rd))"
    have k: "0 < k" "k \<le> length (br_avail rd)" using False less.prems by (auto simp: k_def)
    have sh: "length (br_avail (br_advance k rd)) < length (br_avail rd)"
      using k by (simp add: br_avail_advance)
    define out1 where "out1 = out\<lparr>os_data := os_data out @ take n (br_avail rd)\<rparr>"
    have "copy_blocks n rd out bw = copy_blocks n (br_advance k rd) out1
             (bw + os_write_ret out (length (take n (br_avail rd))))"
      using False less.prems
      by (subst copy_blocks.simps) (simp add: br_read_eq k_def os_write_def out1_def)
    moreover from less.hyps[OF sh less.prems, of out1 "bw + os_write_ret out (length (take n (br_avail rd)))"]
    obtain m where "copy_blocks n (br_advance k rd) out1
             (bw + os_write_ret out (length (take n (br_avail rd)))) =
         (m, br_advance (length (br_avail (br_advance k rd))) (br_advance k rd),
          out1\<lparr>os_data := os_data out1 @ br_avail (br_advance k rd)\<rparr>)" by blast
    moreover have "take n (br_avail rd) @ drop k (br_avail rd) = br_avail rd"
      by (simp add: k_def min_def)
    ultimately show ?thesis using k
      by (simp add: br_advance_advance br_avail_advance out1_def)
  qed
qed

lemma write_headers_loop_data:
  "snd (write_headers_loop hs out bw) = out\<lparr>os_data := os_data out @ concat (map header_line hs)\<rparr>"
  by (induction hs arbitrary: out bw)
     (auto simp: os_write_def header_line_def Let_def split: prod.splits)

lemma header_map_write_data:
  "snd (header_map_write m out) = out\<lparr>os_data := os_data out @ header_map_bytes m\<rparr>"
  by (auto simp: header_map_write_def header_map_bytes_def write_headers_loop_data os_write_def
      Let_def split: prod.splits)

lemma header_map_write_kind [simp]: "os_kind (snd (header_map_write m out)) = os_kind out"
  by (simp add: header_map_write_data)

lemma copy_blocks_reader:
  "0 < n \<Longrightarrow> fst (snd (copy_blocks n rd out bw)) = br_advance (length (br_avail rd)) rd"
  using copy_blocks_all[of n rd out bw] by auto

lemma copy_blocks_out:
  "0 < n \<Longrightarrow> snd (snd (copy_blocks n rd out bw)) = out\<lparr>os_data := os_data out @ br_avail rd\<rparr>"
  using copy_blocks_all[of n rd out bw] by auto

lemma write_impl_data:
  assumes "os_kind out \<noteq> NotAStream" and "0 < chunk_size"
    and "wph \<and> r_http_parsed r \<Longrightarrow> r_http_headers r = Some hh"
  shows "\<exists>n. write_impl r (Some rd) out wph chunk_size =
      Inr (n, Some (br_advance (length (br_avail rd)) rd),
           out\<lparr>os_data := os_data out @ header_map_bytes (r_headers r) @ CRLF
                   @ (if wph \<and> r_http_parsed r then header_map_bytes hh @ CRLF else [])
                   @ br_avail rd @ CRLF\<rparr>)"
  using assms
  by (simp add: write_impl_def Let_def case_prod_beta os_write_def header_map_write_data
      copy_blocks_reader copy_blocks_out)

lemma find_char_append:
  "c \<notin> set a \<Longrightarrow> find_char c (a @ c # b) = Some (length a)"
  by (simp add: find_char_def takeWhile_append)

section \<open>Concrete inputs\<close>

text \<open>
  The decoder on 7-bit input: \<open>utf-8\<close> and \<open>iso-8859-15\<close> both decode ASCII bytes to the same
  characters. It is used on ASCII input only.
\<close>

definition decode_7bit :: decoder where
  "decode_7bit e b = b"

text \<open>
  A stand-in for \<open>hashlib\<close> and \<open>base64\<close> that knows one answer of each: the SHA-1 digest of
  \<open>abc\<close> and its base32 form.
\<close>

definition sha1_abc :: bytes where
  "sha1_abc = [CHR 0xA9, CHR 0x99, CHR 0x3E, CHR 0x36, CHR 0x47, CHR 0x06, CHR 0x81, CHR 0x6A,
               CHR 0xBA, CHR 0x3E, CHR 0x25, CHR 0x71, CHR 0x78, CHR 0x50, CHR 0xC2, CHR 0x6C,
               CHR 0x9C, CHR 0xD0, CHR 0xD8, CHR 0x9D]"

definition kat_lib :: digest_lib where
  "kat_lib =
     \<lparr>lib_sha1 = (\<lambda>b. if b = ''abc'' then sha1_abc else []),
      lib_md5 = (\<lambda>b. []),
      lib_sha256 = (\<lambda>b. []),
      lib_b32encode = (\<lambda>b. if b = sha1_abc then ''VGMT4NSHA2AWVOR6EVYXQUGCNSONBWE5'' else []),
      lib_b32decode = (\<lambda>b. if b = ''VGMT4NSHA2AWVOR6EVYXQUGCNSONBWE5'' then Some sha1_abc else None)\<rparr>"

definition abc_record :: WarcRecord where
  "abc_record =
     set_bytes_content
       (new_WarcRecord\<lparr>r_headers :=
          append_header (set_status_line (new_WarcHeaderMap ''utf-8'') ''WARC/1.1'')
            ''WARC-Block-Digest'' ''sha1:VGMT4NSHA2AWVOR6EVYXQUGCNSONBWE5''\<rparr>)
       ''abc''"

definition http_payload :: bytes where
  "http_payload = ''HTTP/1.1 200 OK'' @ CRLF @ ''Content-Type: text/plain'' @ CRLF @ CRLF @ ''hi''"

definition http_record :: WarcRecord where
  "http_record =
     new_WarcRecord\<lparr>r_is_http := True, r_content_length := 47,
       r_reader := Some (br_set_limit 47 (new_BufferedReader (http_payload @ CRLF @ CRLF)))\<rparr>"

definition hello_record :: WarcRecord where
  "hello_record =
     set_bytes_content
       (new_WarcRecord\<lparr>r_headers := set_status_line (new_WarcHeaderMap ''utf-8'') ''WARC/1.1''\<rparr>)
       ''hello''"

definition plain_out :: OutStream where
  "plain_out =
     \<lparr>os_kind = PlainIOStream, os_data = [], os_write_ret = (\<lambda>n. n),
      os_begin_member_ret = 0, os_end_member_ret = 0\<rparr>"

definition emitted :: "error + (nat \<times> WarcRecord \<times> OutStream) \<Rightarrow> bytes" where
  "emitted res = (case res of Inl e \<Rightarrow> [] | Inr (n, r, out) \<Rightarrow> os_data out)"

definition plain_stream :: "bytes \<Rightarrow> InStream" where
  "plain_stream s = \<lparr>in_bytes = s, in_is_compressing = False, in_tell = (\<lambda>n. n)\<rparr>"

definition info_record :: wire_record where
  "info_record =
     \<lparr>w_version = ''WARC/1.1'',
      w_fields = [(''WARC-Type'', ''warcinfo''), (''Content-Length'', ''5'')],
      w_payload = ''hello''\<rparr>"

definition response_record :: wire_record where
  "response_record =
     \<lparr>w_version = ''WARC/1.0'',
      w_fields = [(''WARC-Type'', ''response''), (''Content-Length'', ''2'')],
      w_payload = ''hi''\<rparr>"

definition two_records :: "(bytes list \<times> wire_record) list" where
  "two_records = [([], info_record), ([CRLF, LF], response_record)]"

definition copied :: "error + (OutStream \<times> ArchiveIterator) \<Rightarrow> bytes" where
  "copied res = (case res of Inl e \<Rightarrow> [] | Inr (out, it) \<Rightarrow> os_data out)"

lemmas eval_defs = br_readline_def br_advance_def br_avail_def line_of_def find_char_def Let_def
  new_BufferedReader_def new_WarcHeaderMap_def isspace_def strip_str_def substr_def substr_from_def
  append_header_def add_continuation_def set_status_line_def size_max_def

lemmas iter_defs = read_next_record_def start_reader_def start_pos_def new_ArchiveIterator_def
  plain_stream_def new_WarcRecord_def read_version_line.simps parse_header_block_def
  parse_header_block_loop.simps scan_header_def str_to_lower_def tolower_def br_tell_def
  finish_record_def br_set_limit_def br_reset_limit_def br_consume_def

section \<open>Reading a stream of well-formed records\<close>

lemma strip_start_loop_ws:
  "list_all isspace ws \<Longrightarrow> \<not> isspace c \<Longrightarrow>
     strip_start_loop (ws @ c # rest) i st = i + length ws"
  by (induction ws arbitrary: i st) auto

lemma strip_end_loop_ws:
  "list_all isspace ws \<Longrightarrow> \<not> isspace c \<Longrightarrow> length ws \<le> j \<Longrightarrow>
     strip_end_loop (ws @ c # rest) j e = j - length ws"
  by (induction ws arbitrary: j e) auto

lemma strip_str_padded:
  assumes "s \<noteq> []" "\<not> isspace (hd s)" "\<not> isspace (last s)"
    and "list_all isspace ws1" "list_all isspace ws2"
  shows "strip_str (ws1 @ s @ ws2) = s"
proof -
  obtain c cs where s1: "s = c # cs" using assms(1) by (cases s) auto
  obtain ds d where s2: "s = ds @ [d]" using assms(1) by (cases s rule: rev_cases) auto
  have c: "\<not> isspace c" using assms(2) s1 by simp
  have d: "\<not> isspace d" using assms(3) s2 by simp
  have st: "strip_start_loop (ws1 @ s @ ws2) 0 0 = length ws1"
    using strip_start_loop_ws[OF assms(4) c, of "cs @ ws2" 0 0] s1 by simp
  have "rev (ws1 @ s @ ws2) = rev ws2 @ d # (rev ds @ rev ws1)" using s2 by simp
  then have en: "strip_end_loop (rev (ws1 @ s @ ws2)) (length (ws1 @ s @ ws2) - 1) (length (ws1 @ s @ ws2))
      = length (ws1 @ s @ ws2) - 1 - length ws2"
    using strip_end_loop_ws[of "rev ws2" d "length (ws1 @ s @ ws2) - 1" "rev ds @ rev ws1"
        "length (ws1 @ s @ ws2)"] assms(5) d s2
    by (simp add: list_all_iff)
  have "length (ws1 @ s @ ws2) - 1 - length ws2 + 1 = length ws1 + length s"
    using s1 by simp
  then show ?thesis
    unfolding strip_str_def Let_def st en substr_def by simp
qed

lemma strip_str_id: "s \<noteq> [] \<Longrightarrow> \<not> isspace (hd s) \<Longrightarrow> \<not> isspace (last s) \<Longrightarrow> strip_str s = s"
  using strip_str_padded[of s "[]" "[]"] by simp

lemma line_of_terminated:
  "CHR 0x0A \<notin> set l \<Longrightarrow> line_of (l @ CHR 0x0A # rest) = l @ LF"
  by (simp add: line_of_def find_char_def takeWhile_append)

lemma br_readline_terminated:
  assumes "br_limit rd = None" "br_data rd = l @ CHR 0x0A # rest" "CHR 0x0A \<notin> set l"
  shows "br_readline rd = (l @ LF, br_advance (Suc (length l)) rd)"
  using assms by (simp add: br_readline_def br_avail_def line_of_terminated)

lemma br_readline_eof:
  "br_avail rd = [] \<Longrightarrow> br_readline rd = ([], br_advance 0 rd)"
  by (simp add: br_readline_def line_of_def find_char_def)

lemma br_limit_advance [simp]: "br_limit (br_advance k rd) = map_option (\<lambda>l. l - k) (br_limit rd)"
  by (simp add: br_advance_def)

lemma rvl_blank:
  assumes "br_limit rd = None" "br_data rd = b @ rest" "blank_line b"
  shows "read_version_line c rd sp =
           read_version_line c (br_advance (length b) rd) (if c then sp else sp + (length b + 1))"
proof -
  have "br_readline rd = (b, br_advance (length b) rd)"
    using assms br_readline_terminated[of rd "[]" rest] br_readline_terminated[of rd "[CHR 0x0D]" rest]
    by (auto simp: blank_line_def)
  then show ?thesis using assms(3)
    by (subst read_version_line.simps) (auto simp: blank_line_def)
qed

lemma rvl_blanks:
  assumes "list_all blank_line bl" "br_limit rd = None" "br_data rd = concat bl @ rest"
  shows "read_version_line c rd sp =
           read_version_line c (br_advance (length (concat bl)) rd)
             (if c then sp else sp + (length (concat bl) + length bl))"
  using assms
proof (induction bl arbitrary: rd sp)
  case Nil
  then show ?case by (simp add: br_advance_0)
next
  case (Cons b bl)
  have b: "blank_line b" and bl: "list_all blank_line bl" using Cons.prems(1) by auto
  have d: "br_data rd = b @ (concat bl @ rest)" using Cons.prems(3) by simp
  have "read_version_line c rd sp =
      read_version_line c (br_advance (length b) rd) (if c then sp else sp + (length b + 1))"
    by (rule rvl_blank[OF Cons.prems(2) d b])
  also have "\<dots> = read_version_line c (br_advance (length (concat bl)) (br_advance (length b) rd))
      (if c then (if c then sp else sp + (length b + 1)) 
       else (if c then sp else sp + (length b + 1)) + (length (concat bl) + length bl))"
    using Cons.prems(2) d by (intro Cons.IH[OF bl]) simp_all
  finally show ?case by (simp add: br_advance_advance add.commute add.left_commute)
qed

lemma rvl_version:
  assumes "br_limit rd = None" "br_data rd = v @ CRLF @ rest" "version_ok v"
  shows "read_version_line c rd sp = (Some v, br_advance (length v + 2) rd, sp)"
proof -
  have nl: "CHR 0x0A \<notin> set (v @ [CHR 0x0D])" using assms(3) by (auto simp: version_ok_def)
  have "br_readline rd = ((v @ [CHR 0x0D]) @ LF, br_advance (Suc (length (v @ [CHR 0x0D]))) rd)"
    using assms(2) by (intro br_readline_terminated[OF assms(1) _ nl]) simp
  then have rl: "br_readline rd = (v @ CRLF, br_advance (length v + 2) rd)" by simp
  have st: "strip_str (v @ CRLF) = v"
    using strip_str_padded[of v "[]" CRLF] assms(3) by (auto simp: version_ok_def isspace_def)
  show ?thesis
    using assms(3) by (subst read_version_line.simps) (auto simp: rl st Let_def version_ok_def)
qed

lemma rvl_eof:
  assumes "br_avail rd = []"
  shows "read_version_line c rd sp = (None, br_advance 0 rd, sp)"
  by (subst read_version_line.simps) (simp add: br_readline_eof[OF assms])

lemma find_char_field_line:
  "CHR '':'' \<notin> set k \<Longrightarrow> find_char CHR '':'' (k @ CHR '':'' # r) = Some (length k)"
  by (simp add: find_char_def takeWhile_append)

lemma phb_field:
  assumes "br_limit rd = None" "br_data rd = field_line h @ rest" "wf_field h"
  shows "parse_header_block_loop rd t False n =
           parse_header_block_loop (br_advance (length (field_line h)) rd)
             (append_header t (fst h) (snd h)) False (n + length (field_line h))"
proof -
  obtain k v where h: "h = (k, v)" by (cases h)
  have k: "k \<noteq> []" "CHR '':'' \<notin> set k" "CHR 0x0A \<notin> set k" "\<not> isspace (hd k)" "\<not> isspace (last k)"
    and v: "v \<noteq> []" "CHR 0x0A \<notin> set v" "\<not> isspace (hd v)" "\<not> isspace (last v)"
    using assms(3) by (auto simp: wf_field_def wf_name_def wf_value_def h)
  define l where "l = k @ '': '' @ v @ [CHR 0x0D]"
  have fl: "field_line h = l @ LF" by (simp add: field_line_def l_def h)
  have nl: "CHR 0x0A \<notin> set l" using k(3) v(2) by (simp add: l_def)
  have rl: "br_readline rd = (field_line h, br_advance (length (field_line h)) rd)"
    using br_readline_terminated[OF assms(1) _ nl, of rest] assms(2) by (simp add: fl)
  have ne: "field_line h \<noteq> CRLF" "field_line h \<noteq> []" using k(1) by (auto simp: field_line_def h)
  have hd: "\<not> isspace (hd (field_line h))" using k(1,4) by (simp add: field_line_def h)
  have fc: "find_char CHR '':'' (field_line h) = Some (length (fst h))"
    using find_char_field_line[OF k(2)] by (simp add: field_line_def h)
  have s1: "strip_str (substr (field_line h) 0 (length (fst h))) = fst h"
    using k by (simp add: substr_def field_line_def h strip_str_id)
  have "substr_from (field_line h) (Suc (length (fst h))) = '' '' @ v @ CRLF"
    by (simp add: substr_from_def field_line_def h)
  then have s2: "strip_str (substr_from (field_line h) (Suc (length (fst h)))) = snd h"
    using strip_str_padded[of v "'' ''" CRLF] v by (simp add: isspace_def h)
  have len: "\<not> length (field_line h) \<le> length (fst h)" by (simp add: field_line_def h)
  show ?thesis
    by (subst parse_header_block_loop.simps)
       (simp add: rl ne hd fc s1 s2 len Let_def)
qed

lemma phb_end:
  assumes "br_limit rd = None" "br_data rd = CRLF @ rest"
  shows "parse_header_block_loop rd t hs n = (n + 2, br_advance 2 rd, t)"
proof -
  have "br_readline rd = ([CHR 0x0D] @ LF, br_advance (Suc (length [CHR 0x0D])) rd)"
    using assms(2) by (intro br_readline_terminated[OF assms(1)]) simp_all
  then show ?thesis by (subst parse_header_block_loop.simps) (simp add: numeral_2_eq_2)
qed

lemma phb_fields:
  assumes "list_all wf_field flds" "br_limit rd = None"
    "br_data rd = concat (map field_line flds) @ CRLF @ rest" "m_dict_cache_stale t"
  shows "parse_header_block_loop rd t False n =
           (n + length (concat (map field_line flds)) + 2,
            br_advance (length (concat (map field_line flds)) + 2) rd,
            t\<lparr>m_headers := m_headers t @ flds\<rparr>)"
  using assms
proof (induction flds arbitrary: rd t n)
  case Nil
  then show ?case using phb_end[of rd rest t False n] by (simp add: numeral_2_eq_2)
next
  case (Cons h flds)
  have h: "wf_field h" and fs: "list_all wf_field flds" using Cons.prems(1) by auto
  have d: "br_data rd = field_line h @ (concat (map field_line flds) @ CRLF @ rest)"
    using Cons.prems(3) by simp
  have "parse_header_block_loop rd t False n =
           parse_header_block_loop (br_advance (length (field_line h)) rd)
             (append_header t (fst h) (snd h)) False (n + length (field_line h))"
    by (rule phb_field[OF Cons.prems(2) d h])
  also have "\<dots> = (n + length (field_line h) + length (concat (map field_line flds)) + 2,
            br_advance (length (concat (map field_line flds)) + 2) (br_advance (length (field_line h)) rd),
            (append_header t (fst h) (snd h))\<lparr>m_headers := m_headers (append_header t (fst h) (snd h)) @ flds\<rparr>)"
    using Cons.prems(2) d by (intro Cons.IH[OF fs]) (simp_all add: append_header_def)
  finally show ?case using Cons.prems(4)
    by (simp add: br_advance_advance append_header_def add.commute add.left_commute)
qed

lemma named_excl:
  "named ''content-length'' h \<Longrightarrow> \<not> named ''warc-type'' h \<and> \<not> named ''content-type'' h"
  "named ''warc-type'' h \<Longrightarrow> \<not> named ''content-length'' h \<and> \<not> named ''content-type'' h"
  "named ''content-type'' h \<Longrightarrow> \<not> named ''content-length'' h \<and> \<not> named ''warc-type'' h"
  by (auto simp: named_def)

lemma tgt_none:
  "filter (named ''content-length'') hs = [] \<Longrightarrow> filter (named ''warc-type'') hs = [] \<Longrightarrow>
   filter (named ''content-type'') hs = [] \<Longrightarrow> tgt hs r = r"
  by (simp add: tgt_def len_of_def type_of_def http_of_def)

lemma tgt_other:
  "\<not> named ''content-length'' h \<Longrightarrow> \<not> named ''warc-type'' h \<Longrightarrow> \<not> named ''content-type'' h \<Longrightarrow>
   tgt (h # hs) r = tgt hs r"
  by (simp add: tgt_def len_of_def type_of_def http_of_def)

lemma tgt_cl:
  "named ''content-length'' h \<Longrightarrow> stoi (snd h) = Inr v \<Longrightarrow> filter (named ''content-length'') hs = [] \<Longrightarrow>
   tgt (h # hs) r = tgt hs (r\<lparr>r_content_length := int_to_size_t v\<rparr>)"
  using named_excl(1)[of h]
  by (simp add: tgt_def len_of_def type_of_def http_of_def split: list.splits sum.splits)

lemma tgt_wt:
  "named ''warc-type'' h \<Longrightarrow> filter (named ''warc-type'') hs = [] \<Longrightarrow>
   tgt (h # hs) r = tgt hs (r\<lparr>r_record_type := str_record_type_to_enum (snd h)\<rparr>)"
  using named_excl(2)[of h]
  by (simp add: tgt_def len_of_def type_of_def http_of_def split: list.splits sum.splits)

lemma tgt_ct:
  "named ''content-type'' h \<Longrightarrow> filter (named ''content-type'') hs = [] \<Longrightarrow>
   tgt (h # hs) r = tgt hs (if find_at_0 ''application/http'' (snd h) then r\<lparr>r_is_http := True\<rparr> else r)"
  using named_excl(3)[of h]
  by (simp add: tgt_def len_of_def type_of_def http_of_def split: list.splits sum.splits)

lemma scan_headers_Cons_result:
  assumes "scan_header h r pc = Inr (r', pc')"
    and "\<not> 3 \<le> pc' \<Longrightarrow> scan_headers hs r' pc' = Inr R"
    and "3 \<le> pc' \<Longrightarrow> R = r'"
  shows "scan_headers (h # hs) r pc = Inr R"
  using assms by (cases "3 \<le> pc'") simp_all

lemma scan_headers_general:
  assumes "length (filter (named ''content-length'') hs) \<le> 1"
    and "length (filter (named ''warc-type'') hs) \<le> 1"
    and "length (filter (named ''content-type'') hs) \<le> 1"
    and "\<forall>h \<in> set hs. named ''content-length'' h \<longrightarrow> (\<exists>v. stoi (snd h) = Inr v)"
    and "pc + length (filter (named ''content-length'') hs)
            + length (filter (named ''warc-type'') hs)
            + length (filter (named ''content-type'') hs) \<le> 3"
  shows "scan_headers hs r pc = Inr (tgt hs r)"
  using assms
proof (induction hs arbitrary: r pc)
  case Nil
  then show ?case by (simp add: tgt_none)
next
  case (Cons h hs)
  let ?cl = "named ''content-length''" and ?wt = "named ''warc-type''" and ?ct = "named ''content-type''"
  define a where "a = length (filter ?cl hs)"
  define b where "b = length (filter ?wt hs)"
  define c where "c = length (filter ?ct hs)"
  have tl: "length (filter ?cl hs) \<le> 1" "length (filter ?wt hs) \<le> 1" "length (filter ?ct hs) \<le> 1"
    "\<forall>h \<in> set hs. ?cl h \<longrightarrow> (\<exists>v. stoi (snd h) = Inr v)"
    using Cons.prems(1-4) by (auto split: if_splits)
  have cnt: "pc + (if ?cl h then 1 else 0) + (if ?wt h then 1 else 0) + (if ?ct h then 1 else 0)
               + a + b + c \<le> 3"
    using Cons.prems(5) by (auto simp: a_def b_def c_def)
  have one: "(if ?cl h then 1 else 0) + a \<le> (1::nat)" "(if ?wt h then 1 else 0) + b \<le> (1::nat)"
    "(if ?ct h then 1 else 0) + c \<le> (1::nat)"
    using Cons.prems(1-3) by (auto simp: a_def b_def c_def)
  have ih: "scan_headers hs r' pc' = Inr (tgt hs r')" if "pc' + a + b + c \<le> 3" for r' pc'
    using that by (intro Cons.IH tl) (simp add: a_def b_def c_def)
  have z: "filter ?cl hs = []" if "a = 0" using that by (simp add: a_def)
  have zb: "filter ?wt hs = []" if "b = 0" using that by (simp add: b_def)
  have zc: "filter ?ct hs = []" if "c = 0" using that by (simp add: c_def)
  consider (cl) "?cl h" | (wt) "?wt h" | (ct) "?ct h" | (other) "\<not> ?cl h" "\<not> ?wt h" "\<not> ?ct h"
    by blast
  then show ?case
  proof cases
    case cl
    note ex = named_excl(1)[OF cl]
    from cl Cons.prems(4) obtain v where v: "stoi (snd h) = Inr v" by auto
    have a0: "a = 0" using one(1) cl by simp
    have sh: "scan_header h r pc = Inr (r\<lparr>r_content_length := int_to_size_t v\<rparr>, pc + 1)"
      using cl v by (simp add: scan_header_def named_def)
    show ?thesis
    proof (rule scan_headers_Cons_result[OF sh])
      assume "\<not> 3 \<le> pc + 1"
      show "scan_headers hs (r\<lparr>r_content_length := int_to_size_t v\<rparr>) (pc + 1) = Inr (tgt (h # hs) r)"
        using ih[of "pc + 1"] cnt cl ex by (simp add: tgt_cl[OF cl v z[OF a0]])
    next
      assume "3 \<le> pc + 1"
      then have "b = 0" "c = 0" using cnt cl by simp_all
      then show "tgt (h # hs) r = r\<lparr>r_content_length := int_to_size_t v\<rparr>"
        by (simp add: tgt_cl[OF cl v z[OF a0]] tgt_none z[OF a0] zb zc)
    qed
  next
    case wt
    note ex = named_excl(2)[OF wt]
    have b0: "b = 0" using one(2) wt by simp
    have sh: "scan_header h r pc = Inr (r\<lparr>r_record_type := str_record_type_to_enum (snd h)\<rparr>, pc + 1)"
      using wt by (simp add: scan_header_def named_def)
    show ?thesis
    proof (rule scan_headers_Cons_result[OF sh])
      assume "\<not> 3 \<le> pc + 1"
      show "scan_headers hs (r\<lparr>r_record_type := str_record_type_to_enum (snd h)\<rparr>) (pc + 1) = Inr (tgt (h # hs) r)"
        using ih[of "pc + 1"] cnt wt ex by (simp add: tgt_wt[OF wt zb[OF b0]])
    next
      assume "3 \<le> pc + 1"
      then have "a = 0" "c = 0" using cnt wt by simp_all
      then show "tgt (h # hs) r = r\<lparr>r_record_type := str_record_type_to_enum (snd h)\<rparr>"
        by (simp add: tgt_wt[OF wt zb[OF b0]] tgt_none z zb[OF b0] zc)
    qed
  next
    case ct
    note ex = named_excl(3)[OF ct]
    have c0: "c = 0" using one(3) ct by simp
    show ?thesis
    proof (cases "find_at_0 ''application/http'' (snd h)")
      case True
      have sh: "scan_header h r pc = Inr (r\<lparr>r_is_http := True\<rparr>, pc + 1)"
        using ct True by (simp add: scan_header_def named_def)
      show ?thesis
      proof (rule scan_headers_Cons_result[OF sh])
        assume "\<not> 3 \<le> pc + 1"
        show "scan_headers hs (r\<lparr>r_is_http := True\<rparr>) (pc + 1) = Inr (tgt (h # hs) r)"
          using ih[of "pc + 1"] cnt ct ex True by (simp add: tgt_ct[OF ct zc[OF c0]])
      next
        assume "3 \<le> pc + 1"
        then have "a = 0" "b = 0" using cnt ct by simp_all
        then show "tgt (h # hs) r = r\<lparr>r_is_http := True\<rparr>"
          using True by (simp add: tgt_ct[OF ct zc[OF c0]] tgt_none z zb zc[OF c0])
      qed
    next
      case False
      have sh: "scan_header h r pc = Inr (r, pc)"
        using ct False by (simp add: scan_header_def named_def)
      show ?thesis
      proof (rule scan_headers_Cons_result[OF sh])
        assume "\<not> 3 \<le> pc"
        show "scan_headers hs r pc = Inr (tgt (h # hs) r)"
          using ih[of pc] cnt ct ex False by (simp add: tgt_ct[OF ct zc[OF c0]])
      next
        assume "3 \<le> pc"
        then have "a = 0" "b = 0" using cnt ct by simp_all
        then show "tgt (h # hs) r = r"
          using False by (simp add: tgt_ct[OF ct zc[OF c0]] tgt_none z zb zc[OF c0])
      qed
    qed
  next
    case other
    have sh: "scan_header h r pc = Inr (r, pc)"
      using other by (simp add: scan_header_def named_def)
    show ?thesis
    proof (rule scan_headers_Cons_result[OF sh])
      assume "\<not> 3 \<le> pc"
      show "scan_headers hs r pc = Inr (tgt (h # hs) r)"
        using ih[of pc] cnt other by (simp add: tgt_other)
    next
      assume "3 \<le> pc"
      then have "a = 0" "b = 0" "c = 0" using cnt by simp_all
      then show "tgt (h # hs) r = r"
        using other by (simp add: tgt_other tgt_none z zb zc)
    qed
  qed
qed

lemma stoi_range: "stoi s = Inr v \<Longrightarrow> - (2 ^ 31) \<le> v \<and> v \<le> 2 ^ 31 - 1"
  by (auto simp: stoi_def Let_def split: if_splits)

lemma int_to_size_t_nat: "stoi s = Inr (int n) \<Longrightarrow> int_to_size_t (int n) = n"
proof -
  assume "stoi s = Inr (int n)"
  then have "int n \<le> 2 ^ 31 - 1" using stoi_range by blast
  then have "int n < 2 ^ 64" by simp
  then show ?thesis by (simp add: int_to_size_t_def)
qed

lemma scan_headers_wf:
  assumes "wf_wire w" "r_content_length r = 0" "r_record_type r = unknown" "r_is_http r = False"
  shows "scan_headers (w_fields w) r 0 =
           Inr (r\<lparr>r_content_length := length (w_payload w), r_record_type := wire_type w,
                  r_is_http := wire_is_http w\<rparr>)"
proof -
  let ?f = "w_fields w"
  have c: "length (filter (named ''content-length'') ?f) \<le> 1"
      "length (filter (named ''warc-type'') ?f) \<le> 1"
      "length (filter (named ''content-type'') ?f) \<le> 1"
    and st: "\<forall>h\<in>set ?f. named ''content-length'' h \<longrightarrow> stoi (snd h) = Inr (int (length (w_payload w)))"
    and em: "filter (named ''content-length'') ?f = [] \<longrightarrow> w_payload w = []"
    using assms(1) by (auto simp: wf_wire_def list_all_iff)
  have ex: "\<forall>h\<in>set ?f. named ''content-length'' h \<longrightarrow> (\<exists>v. stoi (snd h) = Inr v)"
    using st by blast
  have "scan_headers ?f r 0 = Inr (tgt ?f r)"
    using c by (intro scan_headers_general c ex) simp
  moreover have "len_of ?f 0 = length (w_payload w)"
  proof (cases "filter (named ''content-length'') ?f")
    case Nil
    then show ?thesis using em by (simp add: len_of_def)
  next
    case (Cons h hs)
    then have "h \<in> set (filter (named ''content-length'') ?f)" by simp
    then have "h \<in> set ?f" "named ''content-length'' h" by simp_all
    then have "stoi (snd h) = Inr (int (length (w_payload w)))" using st by blast
    then show ?thesis using Cons by (simp add: len_of_def int_to_size_t_nat)
  qed
  moreover have "type_of ?f unknown = wire_type w" by (simp add: type_of_def wire_type_def)
  moreover have "http_of ?f False = wire_is_http w" by (simp add: http_of_def wire_is_http_def split: list.splits)
  ultimately show ?thesis using assms(2-4) by (simp add: tgt_def)
qed

lemma read_next_record_wire:
  assumes "wf_wire w" "list_all blank_line bl" "br_limit (start_reader it) = None"
    and "br_data (start_reader it) = concat bl @ wire_bytes w @ rest"
  shows "\<exists>sp. read_next_record it =
           finish_record it
             (br_advance (length (concat bl) + length (head_bytes w)) (start_reader it))
             (new_WarcRecord\<lparr>r_stream_pos := sp, r_headers := wire_headers w,
                r_content_length := length (w_payload w), r_record_type := wire_type w,
                r_is_http := wire_is_http w\<rparr>)"
proof -
  define rd0 where "rd0 = start_reader it"
  define c where "c = it_stream_is_compressed it"
  define sp0 where "sp0 = start_pos it rd0"
  define sp where "sp = (if c then sp0 else sp0 + (length (concat bl) + length bl))"
  define rd1 where "rd1 = br_advance (length (concat bl)) rd0"
  define v where "v = w_version w"
  define rd2 where "rd2 = br_advance (length v + 2) rd1"
  define fl where "fl = concat (map field_line (w_fields w))"
  define rd3 where "rd3 = br_advance (length fl + 2) rd2"
  have vok: "version_ok v" and wff: "list_all wf_field (w_fields w)"
    using assms(1) by (auto simp: wf_wire_def v_def)
  have d0: "br_data rd0 = concat bl @ (v @ CRLF @ fl @ CRLF @ w_payload w @ CRLF @ rest)"
    using assms(4) by (simp add: rd0_def wire_bytes_def head_bytes_def v_def fl_def)
  have l0: "br_limit rd0 = None" using assms(3) by (simp add: rd0_def)
  have l1: "br_limit rd1 = None" using l0 by (simp add: rd1_def)
  have d1: "br_data rd1 = v @ CRLF @ (fl @ CRLF @ w_payload w @ CRLF @ rest)"
    using d0 by (simp add: rd1_def)
  have l2: "br_limit rd2 = None" using l1 by (simp add: rd2_def)
  have d2: "br_data rd2 = fl @ CRLF @ (w_payload w @ CRLF @ rest)"
    using d1 by (simp add: rd2_def)
  have rv: "read_version_line c rd0 sp0 = (Some v, rd2, sp)"
    using rvl_blanks[OF assms(2) l0 d0, of c sp0] rvl_version[OF l1 d1 vok, of c sp]
    by (simp add: rd1_def rd2_def sp_def)
  define t where "t = set_status_line (r_headers new_WarcRecord) v"
  have ts: "m_dict_cache_stale t" "t\<lparr>m_headers := m_headers t @ w_fields w\<rparr> = wire_headers w"
    by (simp_all add: t_def set_status_line_def new_WarcRecord_def new_WarcHeaderMap_def
        wire_headers_def v_def)
  have ph: "parse_header_block rd2 t False = (0 + length fl + 2, rd3, wire_headers w)"
    using phb_fields[OF wff l2 d2[unfolded fl_def] ts(1), of 0] ts(2)
    by (simp add: parse_header_block_def fl_def rd3_def)
  define r2 where "r2 = new_WarcRecord\<lparr>r_stream_pos := sp, r_headers := wire_headers w\<rparr>"
  have sc: "scan_headers (w_fields w) r2 0 =
      Inr (r2\<lparr>r_content_length := length (w_payload w), r_record_type := wire_type w,
                  r_is_http := wire_is_http w\<rparr>)"
    by (rule scan_headers_wf[OF assms(1)]) (simp_all add: r2_def new_WarcRecord_def)
  have rd3e: "rd3 = br_advance (length (concat bl) + length (head_bytes w)) (start_reader it)"
    by (simp add: rd3_def rd2_def rd1_def rd0_def br_advance_advance head_bytes_def v_def fl_def
        add.commute add.left_commute)
  have "read_next_record it =
      finish_record it rd3 (r2\<lparr>r_content_length := length (w_payload w), r_record_type := wire_type w,
                  r_is_http := wire_is_http w\<rparr>)"
    using rv ph sc
    by (simp add: read_next_record_def Let_def rd0_def[symmetric] c_def[symmetric]
        sp0_def[symmetric] t_def[symmetric] r2_def wire_headers_def)
  then show ?thesis unfolding rd3e r2_def by blast
qed

lemma beyond_advance:
  "br_limit rd = Some l \<Longrightarrow> k \<le> length (br_avail rd) \<Longrightarrow>
     beyond_limit (br_advance k rd) = beyond_limit rd \<and> br_limit (br_advance k rd) \<noteq> None"
  by (simp add: beyond_limit_def br_avail_def)

lemma beyond_read:
  "br_limit rd = Some l \<Longrightarrow>
     beyond_limit (snd (br_read k rd)) = beyond_limit rd \<and> br_limit (snd (br_read k rd)) \<noteq> None"
  using beyond_advance[of rd l "min k (length (br_avail rd))"] by (simp add: br_read_eq)

lemma start_after_limit:
  "br_limit rd = Some l \<Longrightarrow>
     br_data (br_reset_limit (br_consume None rd)) = beyond_limit rd
     \<and> br_limit (br_reset_limit (br_consume None rd)) = None"
  by (auto simp: beyond_limit_def br_avail_def br_reset_limit_def min_def)

lemma finish_skip:
  assumes "\<not> selected (it_record_type_filter it) w" "r_record_type r = wire_type w"
  shows "finish_record it rd r =
           Inr (skip_next,
                it\<lparr>it_reader := br_consume (Some (r_content_length r)) (br_reset_limit rd),
                   it_record := None\<rparr>)"
  using assms by (simp add: finish_record_def selected_def)

lemma finish_yield:
  assumes sel: "selected (it_record_type_filter it) w"
    and r: "r = new_WarcRecord\<lparr>r_stream_pos := sp, r_headers := wire_headers w,
                r_content_length := length (w_payload w), r_record_type := wire_type w,
                r_is_http := wire_is_http w\<rparr>"
    and rd: "br_limit rd = None" "br_data rd = w_payload w @ tail"
  shows "\<exists>y rdy. finish_record it rd r = Inr (has_next, it\<lparr>it_reader := rdy, it_record := Some y\<rparr>)
           \<and> yield_of (it_parse_http it) y w \<and> br_limit rdy \<noteq> None \<and> beyond_limit rdy = tail"
proof -
  define L where "L = length (w_payload w)"
  define rd' where "rd' = br_set_limit L rd"
  define r' where "r' = r\<lparr>r_reader := Some rd'\<rparr>"
  have lim: "br_limit rd' = Some L" by (simp add: rd'_def br_set_limit_def)
  have av: "br_avail rd' = w_payload w" using rd(2) by (simp add: rd'_def br_set_limit_def br_avail_def L_def)
  have by0: "beyond_limit rd' = tail" using rd(2) by (simp add: beyond_limit_def rd'_def br_set_limit_def L_def)
  have ns: "type_bits (r_record_type r) AND it_record_type_filter it \<noteq> 0"
    using sel by (simp add: selected_def r)
  show ?thesis
  proof (cases "it_parse_http it \<and> wire_is_http w")
    case False
    have "finish_record it rd r = Inr (has_next, it\<lparr>it_reader := rd', it_record := Some r'\<rparr>)"
      using ns False by (auto simp: finish_record_def Let_def rd'_def r'_def r L_def)
    moreover have "yield_of (it_parse_http it) r' w"
      using False av by (auto simp: yield_of_def r'_def r new_WarcRecord_def)
    ultimately show ?thesis using lim by0 by auto
  next
    case True
    obtain n rd'' hm where ph: "parse_header_block rd' (new_WarcHeaderMap ''iso-8859-15'') True = (n, rd'', hm)"
      using prod_cases3 by blast
    from phb_within[OF ph[unfolded parse_header_block_def]]
    obtain k where k: "k \<le> length (br_avail rd')" "rd'' = br_advance k rd'" "n = k" by auto
    define y where "y = r'\<lparr>r_http_headers := Some hm, r_reader := Some rd'',
        r_content_length := size_t_sub (r_content_length r') n, r_http_parsed := True\<rparr>"
    have php: "parse_http r' = Inr y"
      using ph by (simp add: parse_http_def r'_def r new_WarcRecord_def y_def)
    have "finish_record it rd r =
        (case parse_http r' of
           Inl e \<Rightarrow> Inl e
         | Inr y \<Rightarrow> Inr (has_next,
              it\<lparr>it_reader := (case r_reader y of Some x \<Rightarrow> x | None \<Rightarrow> rd'),
                 it_record := Some y\<rparr>))"
      using ns True
      by (simp add: finish_record_def Let_def rd'_def r'_def L_def r split: sum.splits option.splits)
    then have "finish_record it rd r = Inr (has_next, it\<lparr>it_reader := rd'', it_record := Some y\<rparr>)"
      by (simp add: php y_def)
    moreover have "n \<le> L" using k av by (simp add: L_def)
    then have "yield_of (it_parse_http it) y w"
      using True by (auto simp: yield_of_def y_def r'_def r size_t_sub_def L_def)
    moreover have "br_limit rd'' \<noteq> None" "beyond_limit rd'' = tail"
      using beyond_advance[OF lim k(1)] k(2) by0 by auto
    ultimately show ?thesis by auto
  qed
qed

lemma read_next_record_eof:
  assumes "positioned it (concat tr)" "list_all blank_line tr"
  shows "\<exists>it'. read_next_record it = Inr (eof, it') \<and> br_data (it_reader it') = []"
proof -
  from assms(1) obtain bl where bl: "list_all blank_line bl" "br_limit (start_reader it) = None"
    "br_data (start_reader it) = concat bl @ concat tr" by (auto simp: positioned_def)
  define rd0 where "rd0 = start_reader it"
  define rdE where "rdE = br_advance (length (concat (bl @ tr))) rd0"
  have all: "list_all blank_line (bl @ tr)" using bl(1) assms(2) by simp
  have d: "br_data rd0 = concat (bl @ tr) @ []" using bl(3) by (simp add: rd0_def)
  have l: "br_limit rd0 = None" using bl(2) by (simp add: rd0_def)
  have e: "br_avail rdE = []" using d l by (simp add: rdE_def br_avail_def)
  obtain sp where "read_version_line (it_stream_is_compressed it) rd0 (start_pos it rd0)
      = (None, br_advance 0 rdE, sp)"
    using rvl_blanks[OF all l d, of "it_stream_is_compressed it" "start_pos it rd0"] rvl_eof[OF e]
    by (simp add: rdE_def)
  then have "read_next_record it = Inr (eof, it\<lparr>it_reader := br_advance 0 rdE,
      it_record := Some (new_WarcRecord\<lparr>r_stream_pos := sp\<rparr>)\<rparr>)"
    by (simp add: read_next_record_def Let_def rd0_def)
  moreover have "br_data (br_advance 0 rdE) = []" using d by (simp add: rdE_def)
  ultimately show ?thesis by auto
qed

lemma positioned_after_skip:
  assumes "br_limit rd = None" "br_data rd = pl @ CRLF @ S"
  shows "positioned (it\<lparr>it_reader := br_consume (Some (length pl)) (br_reset_limit rd),
                         it_record := None\<rparr>) S"
proof -
  have "br_avail (br_reset_limit rd) = pl @ CRLF @ S"
    using assms by (simp add: br_avail_def br_reset_limit_def)
  then have "br_data (br_consume (Some (length pl)) (br_reset_limit rd)) = concat [CRLF] @ S"
    using assms(2) by simp
  moreover have "br_limit (br_consume (Some (length pl)) (br_reset_limit rd)) = None"
    by (simp add: br_consume_def br_reset_limit_def)
  moreover have "list_all blank_line [CRLF]" by (simp add: blank_line_def)
  ultimately show ?thesis
    unfolding positioned_def start_reader_def by (intro exI[of _ "[CRLF]"]) simp
qed

lemma positioned_after_yield:
  assumes "br_limit rdy \<noteq> None" "beyond_limit rdy = CRLF @ S"
  shows "positioned (it\<lparr>it_reader := rdy, it_record := Some y\<rparr>
                       \<lparr>it_reader := snd (br_read k rdy)\<rparr>) S"
proof -
  from assms(1) obtain l where l: "br_limit rdy = Some l" by auto
  from beyond_read[OF l, of k] obtain l' where l': "br_limit (snd (br_read k rdy)) = Some l'"
    and b: "beyond_limit (snd (br_read k rdy)) = CRLF @ S" using assms(2) by auto
  from start_after_limit[OF l'] b
  have "br_data (br_reset_limit (br_consume None (snd (br_read k rdy)))) = concat [CRLF] @ S"
    "br_limit (br_reset_limit (br_consume None (snd (br_read k rdy)))) = None" by simp_all
  moreover have "list_all blank_line [CRLF]" by (simp add: blank_line_def)
  ultimately show ?thesis
    unfolding positioned_def start_reader_def by (intro exI[of _ "[CRLF]"]) simp
qed

lemma for_each_record_stream:
  assumes "positioned it (stream_bytes es tr)" "list_all wf_entry es" "list_all blank_line tr"
    and "it_parse_http it = p" "it_record_type_filter it = F" "Inv s"
    and body: "\<And>y w s. yield_of p y w \<Longrightarrow> wf_wire w \<Longrightarrow> Inv s \<Longrightarrow>
                 \<exists>k s'. body (Some y) s = Inr (k, s') \<and> R w s s' \<and> Inv s'"
  shows "\<exists>sf itf. for_each_record body it s = Inr (sf, itf)
           \<and> chain R (filter (selected F) (map snd es)) s sf \<and> Inv sf
           \<and> br_data (it_reader itf) = []"
  using assms(1,2,4,5,6)
proof (induction es arbitrary: it s)
  case Nil
  then obtain it' where "read_next_record it = Inr (eof, it')" "br_data (it_reader it') = []"
    using read_next_record_eof[of it tr] assms(3) by auto
  then show ?case using Nil.prems
    by (subst for_each_record.simps) simp
next
  case (Cons e es)
  obtain bl' w where e: "e = (bl', w)" by (cases e)
  have wfs: "list_all wf_entry es" using Cons.prems(2) by simp
  have wf: "wf_wire w" and bl': "list_all blank_line bl'"
    using Cons.prems(2) by (auto simp: wf_entry_def e)
  from Cons.prems(1) obtain bl where bl: "list_all blank_line bl" "br_limit (start_reader it) = None"
    "br_data (start_reader it) = concat bl @ stream_bytes (e # es) tr" by (auto simp: positioned_def)
  define S where "S = stream_bytes es tr"
  have all: "list_all blank_line (bl @ bl')" using bl(1) bl' by simp
  have d: "br_data (start_reader it) = concat (bl @ bl') @ wire_bytes w @ S"
    using bl(3) by (simp add: e S_def)
  define rd where "rd = br_advance (length (concat (bl @ bl')) + length (head_bytes w)) (start_reader it)"
  from read_next_record_wire[OF wf all bl(2) d] obtain sp where
    rn: "read_next_record it = finish_record it rd
             (new_WarcRecord\<lparr>r_stream_pos := sp, r_headers := wire_headers w,
                r_content_length := length (w_payload w), r_record_type := wire_type w,
                r_is_http := wire_is_http w\<rparr>)"
    unfolding rd_def by blast
  have rdl: "br_limit rd = None" using bl(2) by (simp add: rd_def)
  have rdd: "br_data rd = w_payload w @ CRLF @ S"
    using d by (simp add: rd_def wire_bytes_def)
  show ?case
  proof (cases "selected F w")
    case False
    define it' where "it' = it\<lparr>it_reader := br_consume (Some (length (w_payload w))) (br_reset_limit rd),
                   it_record := None\<rparr>"
    have "read_next_record it = Inr (skip_next, it')"
      using finish_skip[of it w _ rd] False Cons.prems(4) rn by (simp add: it'_def)
    then have fe: "for_each_record body it s = for_each_record body it' s"
      by (subst for_each_record.simps) simp
    have "positioned it' (stream_bytes es tr)"
      unfolding it'_def S_def[symmetric] by (rule positioned_after_skip[OF rdl rdd])
    from Cons.IH[OF this wfs _ _ Cons.prems(5)] Cons.prems(3,4)
    obtain sf itf where "for_each_record body it' s = Inr (sf, itf)"
      "chain R (filter (selected F) (map snd es)) s sf" "Inv sf" "br_data (it_reader itf) = []"
      by (auto simp: it'_def)
    then show ?thesis using fe False by (auto simp: e)
  next
    case True
    from finish_yield[OF _ refl rdl rdd, of it sp] True Cons.prems(4)
    obtain y rdy where fy: "finish_record it rd
             (new_WarcRecord\<lparr>r_stream_pos := sp, r_headers := wire_headers w,
                r_content_length := length (w_payload w), r_record_type := wire_type w,
                r_is_http := wire_is_http w\<rparr>) = Inr (has_next, it\<lparr>it_reader := rdy, it_record := Some y\<rparr>)"
      and yo: "yield_of (it_parse_http it) y w" and rl: "br_limit rdy \<noteq> None"
      and bey: "beyond_limit rdy = CRLF @ S" by auto
    from body[OF _ wf Cons.prems(5), of y] yo Cons.prems(3)
    obtain k s' where b: "body (Some y) s = Inr (k, s')" "R w s s'" "Inv s'" by auto
    define it' where "it' = it\<lparr>it_reader := rdy, it_record := Some y\<rparr>\<lparr>it_reader := snd (br_read k rdy)\<rparr>"
    have fe: "for_each_record body it s = for_each_record body it' s'"
      using rn fy b(1) by (subst for_each_record.simps) (simp add: it'_def)
    have "positioned it' (stream_bytes es tr)"
      unfolding it'_def S_def[symmetric] by (rule positioned_after_yield[OF rl bey])
    from Cons.IH[OF this wfs _ _ b(3)] Cons.prems(3,4)
    obtain sf itf where "for_each_record body it' s' = Inr (sf, itf)"
      "chain R (filter (selected F) (map snd es)) s' sf" "Inv sf" "br_data (it_reader itf) = []"
      by (auto simp: it'_def)
    then show ?thesis using fe True b(2) by (auto simp: e)
  qed
qed

lemma positioned_new:
  "positioned (new_ArchiveIterator \<lparr>in_bytes = S, in_is_compressing = c, in_tell = tell\<rparr> p F) S"
  unfolding positioned_def
  by (intro exI[of _ "[]"]) (simp add: new_ArchiveIterator_def start_reader_def new_BufferedReader_def)

lemma chain_collect:
  "chain (\<lambda>w s s'. \<exists>y. s' = s @ [Some y] \<and> yield_of p y w) ws s sf \<Longrightarrow>
     \<exists>ys. sf = s @ map Some ys \<and> list_all2 (yield_of p) ys ws"
proof (induction ws arbitrary: s)
  case Nil
  then show ?case by simp
next
  case (Cons w ws)
  then obtain y where c: "chain (\<lambda>w s s'. \<exists>y. s' = s @ [Some y] \<and> yield_of p y w) ws (s @ [Some y]) sf"
    and y: "yield_of p y w" by auto
  from Cons.IH[OF c] obtain ys where "sf = (s @ [Some y]) @ map Some ys" "list_all2 (yield_of p) ys ws"
    by blast
  then show ?case using y by (intro exI[of _ "y # ys"]) simp
qed

lemma read_next_record_skip_first:
  assumes "wf_entry e" "\<not> selected F (snd e)"
  shows "\<exists>it'. read_next_record
            (new_ArchiveIterator \<lparr>in_bytes = stream_bytes (e # es) tr, in_is_compressing = c, in_tell = tell\<rparr> p F)
             = Inr (skip_next, it')
          \<and> it_record it' = None
          \<and> br_tell (it_reader it')
               = length (concat (fst e)) + length (head_bytes (snd e)) + length (w_payload (snd e))"
proof -
  define it where "it = new_ArchiveIterator \<lparr>in_bytes = stream_bytes (e # es) tr, in_is_compressing = c, in_tell = tell\<rparr> p F"
  have sr: "start_reader it = new_BufferedReader (stream_bytes (e # es) tr)"
    by (simp add: it_def new_ArchiveIterator_def start_reader_def)
  have l: "br_limit (start_reader it) = None" by (simp add: sr new_BufferedReader_def)
  have d: "br_data (start_reader it) = concat (fst e) @ wire_bytes (snd e) @ stream_bytes es tr"
    by (simp add: sr new_BufferedReader_def)
  have wf: "wf_wire (snd e)" "list_all blank_line (fst e)" using assms(1) by (auto simp: wf_entry_def)
  define rd where "rd = br_advance (length (concat (fst e)) + length (head_bytes (snd e))) (start_reader it)"
  from read_next_record_wire[OF wf l d] obtain sp where
    rn: "read_next_record it = finish_record it rd
             (new_WarcRecord\<lparr>r_stream_pos := sp, r_headers := wire_headers (snd e),
                r_content_length := length (w_payload (snd e)), r_record_type := wire_type (snd e),
                r_is_http := wire_is_http (snd e)\<rparr>)"
    unfolding rd_def by blast
  have F: "it_record_type_filter it = F" by (simp add: it_def new_ArchiveIterator_def)
  have rdd: "br_data rd = w_payload (snd e) @ CRLF @ stream_bytes es tr"
    using d by (simp add: rd_def wire_bytes_def)
  have rdp: "br_pos rd = length (concat (fst e)) + length (head_bytes (snd e))"
    by (simp add: rd_def sr new_BufferedReader_def)
  have "read_next_record it = Inr (skip_next,
      it\<lparr>it_reader := br_consume (Some (length (w_payload (snd e)))) (br_reset_limit rd), it_record := None\<rparr>)"
    using finish_skip[of it "snd e" _ rd] assms(2) F rn by simp
  moreover have "br_pos (br_consume (Some (length (w_payload (snd e)))) (br_reset_limit rd))
      = length (concat (fst e)) + length (head_bytes (snd e)) + length (w_payload (snd e))"
    using rdd rdp by (simp add: br_consume_def br_reset_limit_def br_avail_def)
  ultimately show ?thesis unfolding it_def br_tell_def by simp
qed

lemma header_line_field_line: "wf_field h \<Longrightarrow> header_line h = field_line h"
  by (simp add: header_line_def field_line_def wf_field_def wf_name_def)

lemma header_map_bytes_wire:
  assumes "wf_wire w"
  shows "header_map_bytes (wire_headers w) @ CRLF = head_bytes w"
proof -
  have "map header_line (w_fields w) = map field_line (w_fields w)"
    using assms by (auto simp: wf_wire_def list_all_iff header_line_field_line)
  then have "concat (map header_line (w_fields w)) = concat (map field_line (w_fields w))"
    by (rule arg_cong)
  moreover have "w_version w \<noteq> []" using assms by (auto simp: wf_wire_def version_ok_def)
  ultimately show ?thesis by (simp add: header_map_bytes_def wire_headers_def head_bytes_def)
qed

lemma write_each_wire:
  assumes "yield_of False y w" "wf_wire w" "os_kind out \<noteq> NotAStream" "0 < chunk_size"
  shows "\<exists>k out'. write_each lib chunk_size (Some y) out = Inr (k, out')
           \<and> os_data out' = os_data out @ wire_bytes w \<and> os_kind out' \<noteq> NotAStream"
proof -
  from assms(1) obtain rd where y: "r_headers y = wire_headers w" "\<not> r_http_parsed y"
    "r_reader y = Some rd" "br_avail rd = w_payload w"
    by (auto simp: yield_of_def)
  from write_impl_data[OF assms(3,4), of True y "wire_headers w" rd] y(2)
  obtain n where "write_impl y (Some rd) out True chunk_size =
      Inr (n, Some (br_advance (length (br_avail rd)) rd),
           out\<lparr>os_data := os_data out @ header_map_bytes (r_headers y) @ CRLF @ br_avail rd @ CRLF\<rparr>)"
    by auto
  then show ?thesis
    using y assms(3) header_map_bytes_wire[OF assms(2)]
    by (simp add: write_each_def record_write_def wire_bytes_def)
qed

lemma chain_write:
  "chain (\<lambda>w (s::OutStream) (s'::OutStream). os_data s' = os_data s @ wire_bytes w) ws s sf \<Longrightarrow>
     os_data sf = os_data s @ concat (map wire_bytes ws)"
  by (induction ws arbitrary: s) auto

lemma str_record_type_to_enum_not_no_type: "str_record_type_to_enum s \<noteq> no_type"
  by (simp add: str_record_type_to_enum_def Let_def)

lemma selected_any_type: "selected (type_bits any_type) w"
proof -
  have "wire_type w \<noteq> no_type"
    by (simp add: wire_type_def str_record_type_to_enum_not_no_type split: list.splits)
  then show ?thesis
    by (cases "wire_type w") (simp_all add: selected_def type_bits_def)
qed

lemma stream_bytes_without_blank_lines:
  "stream_bytes (without_blank_lines es) [] = concat (map wire_bytes (map snd es))"
  by (induction es) (simp_all add: without_blank_lines_def)

lemma wf_two_records: "list_all wf_entry two_records"
  by (simp add: two_records_def wf_entry_def blank_line_def wf_wire_def version_ok_def
      info_record_def response_record_def wf_field_def wf_name_def wf_value_def isspace_def
      named_def str_to_lower_def tolower_def stoi_def is_digit_def digit_val_def Let_def)

lemma wire_type_info_record: "wire_type info_record = warcinfo"
  by (simp add: wire_type_def named_def str_to_lower_def tolower_def
      info_record_def str_record_type_to_enum_def Let_def)

lemma wire_type_response_record: "wire_type response_record = response"
  by (simp add: wire_type_def named_def str_to_lower_def tolower_def
      response_record_def str_record_type_to_enum_def Let_def)

lemma not_selected_info_record: "\<not> selected (type_bits response) info_record"
  by (simp add: selected_def wire_type_info_record type_bits_def)

lemma selected_response_record: "selected (type_bits response) response_record"
  by (simp add: selected_def wire_type_response_record type_bits_def)

lemma selected_two_records:
  "filter (selected (type_bits response)) (map snd two_records) = [response_record]"
  by (simp add: two_records_def not_selected_info_record selected_response_record)

lemma stream_two_records_plain:
  "stream_bytes (without_blank_lines two_records) [] =
     ''WARC/1.1'' @ CRLF @ ''WARC-Type: warcinfo'' @ CRLF @ ''Content-Length: 5'' @ CRLF @ CRLF
       @ ''hello'' @ CRLF
     @ ''WARC/1.0'' @ CRLF @ ''WARC-Type: response'' @ CRLF @ ''Content-Length: 2'' @ CRLF @ CRLF
       @ ''hi'' @ CRLF"
  by (simp add: without_blank_lines_def two_records_def wire_bytes_def head_bytes_def
      field_line_def info_record_def response_record_def)

section \<open>The filter law and parse_http on well-formed input\<close>

text \<open>
  The filter law on streams of well-formed records in the wire layout (\<open>wf_wire\<close>, so with
  payloads under 2 GiB), with any blank lines between them, every filter \<open>F\<close>, either
  setting of \<open>parse_http\<close> and every caller that reads any number of bytes of each yielded
  record: the iteration ends, it yields exactly the records whose type has a bit in common
  with \<open>F\<close>, in the order of the stream, and it ends with \<open>eof\<close> with the reader at the end
  of the stream. A record at the head of the stream that the filter rejects makes the step
  return \<open>skip_next\<close> with no record held and the reader past the header block and the whole
  payload.
\<close>

lemma filter_law_wire:
  assumes "list_all wf_entry es" "list_all blank_line tr"
  shows "(\<exists>ys itf. for_each_record (collect demand)
             (new_ArchiveIterator \<lparr>in_bytes = stream_bytes es tr, in_is_compressing = c, in_tell = tell\<rparr> p F)
             [] = Inr (map Some ys, itf)
           \<and> list_all2 (yield_of p) ys (filter (selected F) (map snd es))
           \<and> br_data (it_reader itf) = [])
       \<and> (\<forall>e es'. es = e # es' \<and> \<not> selected F (snd e) \<longrightarrow>
            (\<exists>it'. read_next_record
               (new_ArchiveIterator \<lparr>in_bytes = stream_bytes es tr, in_is_compressing = c, in_tell = tell\<rparr> p F)
                 = Inr (skip_next, it')
               \<and> it_record it' = None
               \<and> br_tell (it_reader it')
                    = length (concat (fst e)) + length (head_bytes (snd e)) + length (w_payload (snd e))))"
proof (intro conjI allI impI)
  define it where "it = new_ArchiveIterator \<lparr>in_bytes = stream_bytes es tr, in_is_compressing = c, in_tell = tell\<rparr> p F"
  have pf: "it_parse_http it = p" "it_record_type_filter it = F"
    by (simp_all add: it_def new_ArchiveIterator_def)
  have pos: "positioned it (stream_bytes es tr)" unfolding it_def by (rule positioned_new)
  have "\<exists>sf itf. for_each_record (collect demand) it [] = Inr (sf, itf)
           \<and> chain (\<lambda>w s s'. \<exists>y. s' = s @ [Some y] \<and> yield_of p y w) (filter (selected F) (map snd es)) [] sf
           \<and> True \<and> br_data (it_reader itf) = []"
    by (rule for_each_record_stream[OF pos assms pf, where Inv = "\<lambda>s. True"])
       (simp_all add: collect_def)
  then obtain sf itf where r: "for_each_record (collect demand) it [] = Inr (sf, itf)"
    "chain (\<lambda>w s s'. \<exists>y. s' = s @ [Some y] \<and> yield_of p y w) (filter (selected F) (map snd es)) [] sf"
    "br_data (it_reader itf) = []" by blast
  from chain_collect[OF r(2)] obtain ys where "sf = map Some ys"
    "list_all2 (yield_of p) ys (filter (selected F) (map snd es))" by auto
  then show "\<exists>ys itf. for_each_record (collect demand)
             (new_ArchiveIterator \<lparr>in_bytes = stream_bytes es tr, in_is_compressing = c, in_tell = tell\<rparr> p F)
             [] = Inr (map Some ys, itf)
           \<and> list_all2 (yield_of p) ys (filter (selected F) (map snd es))
           \<and> br_data (it_reader itf) = []"
    using r(1,3) unfolding it_def by blast
next
  fix e es'
  assume a: "es = e # es' \<and> \<not> selected F (snd e)"
  then have "wf_entry e" using assms(1) by simp
  from read_next_record_skip_first[OF this, of F es' tr c tell p] a
  show "\<exists>it'. read_next_record
               (new_ArchiveIterator \<lparr>in_bytes = stream_bytes es tr, in_is_compressing = c, in_tell = tell\<rparr> p F)
                 = Inr (skip_next, it')
               \<and> it_record it' = None
               \<and> br_tell (it_reader it')
                    = length (concat (fst e)) + length (head_bytes (snd e)) + length (w_payload (snd e))"
    by simp
qed

lemma filter_law_wire_example:
  "list_all wf_entry two_records \<and> list_all blank_line [CRLF]
   \<and> (\<exists>ys itf. for_each_record (collect (\<lambda>r. 0))
          (new_ArchiveIterator (plain_stream (stream_bytes two_records [CRLF])) True (type_bits response))
          [] = Inr (map Some ys, itf)
        \<and> list_all2 (yield_of True) ys [response_record]
        \<and> br_data (it_reader itf) = [])
   \<and> (\<exists>it'. read_next_record
          (new_ArchiveIterator (plain_stream (stream_bytes two_records [CRLF])) True (type_bits response))
            = Inr (skip_next, it')
        \<and> it_record it' = None \<and> br_tell (it_reader it') = 57)"
proof -
  have bl: "list_all blank_line [CRLF]" by (simp add: blank_line_def)
  have ns: "two_records = ([], info_record) # [([CRLF, LF], response_record)]
      \<and> \<not> selected (type_bits response) (snd ([], info_record))"
    by (simp add: two_records_def not_selected_info_record)
  have len: "length (concat (fst ([]::bytes list, info_record))) + length (head_bytes (snd ([]::bytes list, info_record)))
      + length (w_payload (snd ([]::bytes list, info_record))) = 57"
    by (simp add: head_bytes_def info_record_def field_line_def)
  note fl = filter_law_wire[OF wf_two_records bl, of "\<lambda>r. 0" False "\<lambda>n. n" True "type_bits response"]
  have A: "\<exists>ys itf. for_each_record (collect (\<lambda>r. 0))
          (new_ArchiveIterator (plain_stream (stream_bytes two_records [CRLF])) True (type_bits response))
          [] = Inr (map Some ys, itf)
        \<and> list_all2 (yield_of True) ys [response_record]
        \<and> br_data (it_reader itf) = []"
    using fl[THEN conjunct1] unfolding selected_two_records plain_stream_def .
  have B: "\<exists>it'. read_next_record
          (new_ArchiveIterator (plain_stream (stream_bytes two_records [CRLF])) True (type_bits response))
            = Inr (skip_next, it')
        \<and> it_record it' = None \<and> br_tell (it_reader it') = 57"
    using fl[THEN conjunct2, rule_format, of "([], info_record)" "[([CRLF, LF], response_record)]", OF ns]
    unfolding len plain_stream_def .
  show ?thesis using wf_two_records bl A B by blast
qed

text \<open>
  \<open>parse_http\<close> on any record with a reader: one call succeeds and leaves \<open>http_parsed\<close>
  true and \<open>content_length\<close> at the original value minus the bytes the reader has passed (in
  \<open>size_t\<close> arithmetic; as a plain difference when the reader is limited to the record's
  content length, as the iterator leaves it); a further call changes nothing.
\<close>

lemma parse_http_twice:
  assumes "r_reader r = Some reader"
  shows "\<exists>r1 reader1. parse_http r = Inr r1 \<and> r_reader r1 = Some reader1
           \<and> r_http_parsed r1
           \<and> br_tell reader \<le> br_tell reader1
           \<and> r_content_length r1 = size_t_sub (r_content_length r) (br_tell reader1 - br_tell reader)
           \<and> (br_limit reader = Some (r_content_length r) \<longrightarrow>
                r_content_length r1 = r_content_length r - (br_tell reader1 - br_tell reader)
                \<and> br_tell reader1 - br_tell reader \<le> r_content_length r)
           \<and> parse_http r1 = Inr r1"
proof (cases "r_http_parsed r")
  case True
  then show ?thesis using assms
    by (auto simp: parse_http_def size_t_sub_def)
next
  case False
  obtain n rd' hm where ph: "parse_header_block reader (new_WarcHeaderMap ''iso-8859-15'') True = (n, rd', hm)"
    using prod_cases3 by blast
  from phb_within[OF ph[unfolded parse_header_block_def]]
  obtain k where k: "k \<le> length (br_avail reader)" "rd' = br_advance k reader" "n = k" by auto
  have "br_limit reader = Some (r_content_length r) \<Longrightarrow> k \<le> r_content_length r"
    using k(1) by (simp add: br_avail_def)
  then show ?thesis using assms False ph k
    by (auto simp: parse_http_def br_tell_def size_t_sub_def)
qed

lemma parse_http_twice_example:
  "r_reader http_record = Some (br_set_limit 47 (new_BufferedReader (http_payload @ CRLF @ CRLF)))
   \<and> br_limit (br_set_limit 47 (new_BufferedReader (http_payload @ CRLF @ CRLF)))
        = Some (r_content_length http_record)
   \<and> (\<exists>r1 reader1. parse_http http_record = Inr r1 \<and> r_reader r1 = Some reader1
         \<and> r_http_parsed r1 \<and> br_tell reader1 = 45 \<and> r_content_length r1 = 2
         \<and> parse_http r1 = Inr r1)"
proof -
  have h1: "r_reader http_record = Some (br_set_limit 47 (new_BufferedReader (http_payload @ CRLF @ CRLF)))"
    by (simp add: http_record_def)
  have h2: "br_limit (br_set_limit 47 (new_BufferedReader (http_payload @ CRLF @ CRLF)))
        = Some (r_content_length http_record)"
    by (simp add: http_record_def br_set_limit_def)
  have h3: "fst (parse_header_block (br_set_limit 47 (new_BufferedReader (http_payload @ CRLF @ CRLF)))
        (new_WarcHeaderMap ''iso-8859-15'') True) = 45"
    by (simp add: parse_header_block_def parse_header_block_loop.simps eval_defs http_payload_def
        br_set_limit_def)
  from parse_http_twice[OF h1] obtain r1 reader1 where
    r1: "parse_http http_record = Inr r1" "r_reader r1 = Some reader1" "r_http_parsed r1"
      "r_content_length r1 = size_t_sub (r_content_length http_record)
         (br_tell reader1 - br_tell (br_set_limit 47 (new_BufferedReader (http_payload @ CRLF @ CRLF))))"
      "parse_http r1 = Inr r1"
    by blast
  have "br_tell reader1 = 45"
    using r1(1,2) h3
    by (auto simp: parse_http_def http_record_def new_WarcRecord_def br_tell_def
        parse_header_block_def dest!: phb_within split: prod.splits)
      (simp add: br_set_limit_def new_BufferedReader_def)
  moreover have "r_content_length r1 = 2"
    using r1(4) calculation
    by (simp add: http_record_def br_tell_def br_set_limit_def new_BufferedReader_def size_t_sub_def)
  ultimately show ?thesis using h1 h2 r1 by blast
qed

text \<open>
  \<open>parse_http\<close> on an HTTP header block whose lines end in \<open>\r\n\<close>: a status line, header
  lines \<open>name: value\<close> and the blank line \<open>\r\n\<close>, followed by the body. The call consumes
  exactly the block, blank line included: the reader is left at the body, the status line
  and the headers are those of the block, and \<open>content_length\<close> is lowered by the length of
  the block.
\<close>

lemma phb_status:
  assumes "br_limit rd = None" "br_data rd = s @ CRLF @ rest" "wf_value s"
  shows "parse_header_block_loop rd t True n =
           parse_header_block_loop (br_advance (length s + 2) rd)
             (set_status_line t s) False (n + (length s + 2))"
proof -
  have s: "s \<noteq> []" "CHR 0x0A \<notin> set s" "\<not> isspace (hd s)" "\<not> isspace (last s)"
    using assms(3) by (auto simp: wf_value_def)
  have nl: "CHR 0x0A \<notin> set (s @ [CHR 0x0D])" using s(2) by simp
  have "br_readline rd = ((s @ [CHR 0x0D]) @ LF, br_advance (Suc (length (s @ [CHR 0x0D]))) rd)"
    using assms(2) by (intro br_readline_terminated[OF assms(1) _ nl]) simp
  then have rl: "br_readline rd = (s @ CRLF, br_advance (length s + 2) rd)" by simp
  have st: "strip_str (s @ CRLF) = s"
    using strip_str_padded[of s "[]" CRLF] s by (simp add: isspace_def)
  show ?thesis
    using s(1,3) by (subst parse_header_block_loop.simps) (simp add: rl st Let_def)
qed

lemma parse_http_crlf_block:
  assumes "r_reader r = Some rd" "\<not> r_http_parsed r" "br_limit rd = None"
    and "br_data rd = s @ CRLF @ concat (map field_line flds) @ CRLF @ body"
    and "wf_value s" "list_all wf_field flds"
  shows "parse_http r =
           Inr (r\<lparr>r_http_headers :=
                    Some ((new_WarcHeaderMap ''iso-8859-15'')\<lparr>m_status_line := s, m_headers := flds\<rparr>),
                  r_reader := Some (br_advance (length (s @ CRLF @ concat (map field_line flds) @ CRLF)) rd),
                  r_content_length :=
                    size_t_sub (r_content_length r) (length (s @ CRLF @ concat (map field_line flds) @ CRLF)),
                  r_http_parsed := True\<rparr>)"
proof -
  let ?t = "new_WarcHeaderMap ''iso-8859-15''"
  let ?rd1 = "br_advance (length s + 2) rd"
  have d1: "br_data ?rd1 = concat (map field_line flds) @ CRLF @ body"
    using assms(4) by (simp add: br_advance_def)
  have l1: "br_limit ?rd1 = None" using assms(3) by simp
  have "parse_header_block rd ?t True =
          parse_header_block_loop ?rd1 (set_status_line ?t s) False (length s + 2)"
    unfolding parse_header_block_def
    using phb_status[OF assms(3) _ assms(5), of "concat (map field_line flds) @ CRLF @ body" ?t 0] assms(4)
    by simp
  also have "\<dots> = (length s + 2 + length (concat (map field_line flds)) + 2,
                     br_advance (length (concat (map field_line flds)) + 2) ?rd1,
                     (set_status_line ?t s)\<lparr>m_headers := m_headers (set_status_line ?t s) @ flds\<rparr>)"
    by (rule phb_fields[OF assms(6) l1 d1]) (simp add: set_status_line_def new_WarcHeaderMap_def)
  finally have "parse_header_block rd ?t True =
      (length (s @ CRLF @ concat (map field_line flds) @ CRLF),
       br_advance (length (s @ CRLF @ concat (map field_line flds) @ CRLF)) rd,
       ?t\<lparr>m_status_line := s, m_headers := flds\<rparr>)"
    by (simp add: br_advance_advance set_status_line_def new_WarcHeaderMap_def add.commute add.left_commute)
  then show ?thesis using assms(1,2) by (simp add: parse_http_def)
qed

text \<open>
  A header with an empty value, which the writer emits as the line \<open>X: \<close>, does not come
  back as it was: \<open>strip_str\<close> returns the last character of a string of whitespace only
  (lines 43-55), so the reader stores the value \<open>\n\<close> and the writer emits it.
\<close>

lemma round_trip_empty_value:
  "copied (for_each_record (write_each kat_lib 16384)
      (new_ArchiveIterator
         (plain_stream (''WARC/1.1'' @ CRLF @ ''X: '' @ CRLF
                          @ ''Content-Length: 0'' @ CRLF @ CRLF @ CRLF))
         False (type_bits any_type))
      plain_out)
   = ''WARC/1.1'' @ CRLF @ ''X: '' @ LF @ CRLF @ ''Content-Length: 0'' @ CRLF @ CRLF @ CRLF"
  by (simp add: copied_def for_each_record.simps write_each_def record_write_def write_impl_def
      header_map_write_def os_write_def copy_blocks.simps br_read_def br_close_def
      reader_moved_def plain_out_def
      iter_defs eval_defs stoi_def is_digit_def digit_val_def int_to_size_t_def
      str_record_type_to_enum_def type_bits_def find_at_0_def)

section \<open>The claims\<close>

text \<open>
  C1. The spec: a record whose \<open>Content-Length\<close> is missing or not a non-negative decimal
  integer ends the iteration with \<open>Eof\<close>, or is rejected or taken as length 0; the
  per-iteration step raises no exception. In the source the header scan hands the value to
  \<open>stoi\<close> (line 539) with nothing around it: at the record below, whose \<open>Content-Length\<close> is
  \<open>abc\<close>, the step ends with the exception \<open>invalid_argument\<close> of \<open>stoi\<close>.
\<close>

theorem malformed_content_length_raises:
  "read_next_record (new_ArchiveIterator
     (plain_stream (''WARC/1.1'' @ CRLF @ ''Content-Length: abc'' @ CRLF @ CRLF)) True 65535)
   = Inl StoiInvalidArgument"
  by (simp add: iter_defs eval_defs stoi_def is_digit_def)

text \<open>
  C2. The spec: for every WARC stream and every filter, the iteration yields exactly the
  records whose type has a bit in common with the filter, in the order of the stream, skips
  the others and reaches \<open>Eof\<close>. The header scan reads \<open>Content-Length\<close> with \<open>stoi\<close>
  (line 539), whose result is a C \<open>int\<close>, into the \<open>size_t\<close> field \<open>_content_length\<close>: for a
  record of 2 GiB or more \<open>stoi\<close> throws \<open>out_of_range\<close>. On every stream that starts
  with the header block below, which declares a payload of 2147483648 bytes, whatever
  follows it, for every filter, either setting of \<open>parse_http\<close> and every loop body, the
  iteration yields and skips nothing and does not reach \<open>Eof\<close>: it ends with that exception.
\<close>

theorem filter_law_large_record:
  "for_each_record body
     (new_ArchiveIterator
        \<lparr>in_bytes = ''WARC/1.0'' @ CRLF @ ''WARC-Type: response'' @ CRLF
                     @ ''Content-Length: 2147483648'' @ CRLF @ CRLF @ rest,
         in_is_compressing = c, in_tell = tell\<rparr> p F) st
   = Inl StoiOutOfRange"
  by (simp add: for_each_record.simps iter_defs eval_defs stoi_def is_digit_def digit_val_def
      str_record_type_to_enum_def)

text \<open>
  C3. The spec: reading any stream of well-formed records without HTTP parsing and writing
  every record without checksums reproduces the stream byte for byte, blank lines between
  records apart. The reader folds a continuation line into the header before it (the
  spec's own continuation-folding scenario) and the writer emits every header on one line:
  the record below, with the header \<open>X-Foo: bar\<close> continued by the line \<open> baz\<close>, is written
  back with the single line \<open>X-Foo: bar baz\<close>.
\<close>

theorem round_trip_counterexample:
  "copied (for_each_record (write_each kat_lib 16384)
      (new_ArchiveIterator
         (plain_stream (''WARC/1.1'' @ CRLF @ ''X-Foo: bar'' @ CRLF @ '' baz'' @ CRLF
                          @ ''Content-Length: 0'' @ CRLF @ CRLF @ CRLF))
         False (type_bits any_type))
      plain_out)
   = ''WARC/1.1'' @ CRLF @ ''X-Foo: bar baz'' @ CRLF @ ''Content-Length: 0'' @ CRLF @ CRLF @ CRLF"
  by (simp add: copied_def for_each_record.simps write_each_def record_write_def write_impl_def
      header_map_write_def os_write_def copy_blocks.simps br_read_def br_close_def
      reader_moved_def plain_out_def
      iter_defs eval_defs stoi_def is_digit_def digit_val_def int_to_size_t_def
      str_record_type_to_enum_def type_bits_def find_at_0_def)

text \<open>
  C3, amended. The round trip holds for the records that are in the layout the writer
  emits and that the reader reads back as they are (\<open>wf_wire\<close>): the version line
  \<open>WARC/1.0\<close> or \<open>WARC/1.1\<close>; every header on one line \<open>name: value\<close>, names and values
  non-empty, without \<open>\n\<close> and without whitespace at either end, names without a colon;
  \<open>Content-Length\<close>, \<open>WARC-Type\<close> and \<open>Content-Type\<close> at most once each (names compared
  without case); a \<open>Content-Length\<close> that \<open>stoi\<close> reads as the length of the payload, so a
  payload under 2 GiB (an empty payload without the header); every line and the
  payload followed by \<open>\r\n\<close>. For every stream of such records, with any blank lines
  (\<open>\r\n\<close> or \<open>\n\<close>) before, between and after them, iterating with \<open>parse_http = False\<close>
  and the filter \<open>any_type\<close> and writing every yielded record with \<open>checksum_data = False\<close>
  (chunk size above 0) to a stream appends to it exactly the input without its blank
  lines. An empty value and a payload of 2 GiB or more are left out because the
  reader does not read them back (\<open>round_trip_empty_value\<close>, and \<open>stoi\<close> at line 539).
\<close>

theorem round_trip:
  assumes "list_all wf_entry es" "list_all blank_line tr"
    and "os_kind out \<noteq> NotAStream" "0 < chunk_size"
  shows "\<exists>out' itf. for_each_record (write_each lib chunk_size)
             (new_ArchiveIterator \<lparr>in_bytes = stream_bytes es tr, in_is_compressing = c, in_tell = tell\<rparr>
                False (type_bits any_type))
             out = Inr (out', itf)
           \<and> os_data out' = os_data out @ stream_bytes (without_blank_lines es) []"
proof -
  define it where "it = new_ArchiveIterator \<lparr>in_bytes = stream_bytes es tr, in_is_compressing = c, in_tell = tell\<rparr>
                False (type_bits any_type)"
  have pf: "it_parse_http it = False" "it_record_type_filter it = type_bits any_type"
    by (simp_all add: it_def new_ArchiveIterator_def)
  have pos: "positioned it (stream_bytes es tr)" unfolding it_def by (rule positioned_new)
  have "\<exists>sf itf. for_each_record (write_each lib chunk_size) it out = Inr (sf, itf)
           \<and> chain (\<lambda>w (s::OutStream) (s'::OutStream). os_data s' = os_data s @ wire_bytes w)
                (filter (selected (type_bits any_type)) (map snd es)) out sf
           \<and> os_kind sf \<noteq> NotAStream \<and> br_data (it_reader itf) = []"
  proof (rule for_each_record_stream[where Inv = "\<lambda>s::OutStream. os_kind s \<noteq> NotAStream"
          and R = "\<lambda>w (s::OutStream) (s'::OutStream). os_data s' = os_data s @ wire_bytes w", OF pos assms(1,2) pf])
    show "os_kind out \<noteq> NotAStream" by (rule assms(3))
  next
    fix y w and s :: OutStream
    assume "yield_of False y w" "wf_wire w" "os_kind s \<noteq> NotAStream"
    then show "\<exists>k s'. write_each lib chunk_size (Some y) s = Inr (k, s')
        \<and> os_data s' = os_data s @ wire_bytes w \<and> os_kind s' \<noteq> NotAStream"
      using assms(4) by (rule write_each_wire)
  qed
  then obtain sf itf where r: "for_each_record (write_each lib chunk_size) it out = Inr (sf, itf)"
    "chain (\<lambda>w (s::OutStream) (s'::OutStream). os_data s' = os_data s @ wire_bytes w)
                (filter (selected (type_bits any_type)) (map snd es)) out sf" by blast
  have "filter (selected (type_bits any_type)) (map snd es) = map snd es"
    by (simp add: selected_any_type)
  then have "os_data sf = os_data out @ stream_bytes (without_blank_lines es) []"
    using chain_write[OF r(2)] by (simp add: stream_bytes_without_blank_lines)
  then show ?thesis using r(1) unfolding it_def by blast
qed

theorem round_trip_witness:
  "list_all wf_entry two_records \<and> list_all blank_line [CRLF]
   \<and> os_kind plain_out \<noteq> NotAStream \<and> (0::nat) < 16384
   \<and> (\<exists>out' itf. for_each_record (write_each kat_lib 16384)
          (new_ArchiveIterator (plain_stream (stream_bytes two_records [CRLF])) False (type_bits any_type))
          plain_out = Inr (out', itf)
        \<and> os_data out' =
            ''WARC/1.1'' @ CRLF @ ''WARC-Type: warcinfo'' @ CRLF @ ''Content-Length: 5'' @ CRLF @ CRLF
              @ ''hello'' @ CRLF
            @ ''WARC/1.0'' @ CRLF @ ''WARC-Type: response'' @ CRLF @ ''Content-Length: 2'' @ CRLF @ CRLF
              @ ''hi'' @ CRLF)"
proof -
  have bl: "list_all blank_line [CRLF]" by (simp add: blank_line_def)
  have k: "os_kind plain_out \<noteq> NotAStream" by (simp add: plain_out_def)
  have c: "(0::nat) < 16384" by simp
  have d: "os_data plain_out = []" by (simp add: plain_out_def)
  have "\<exists>out' itf. for_each_record (write_each kat_lib 16384)
          (new_ArchiveIterator (plain_stream (stream_bytes two_records [CRLF])) False (type_bits any_type))
          plain_out = Inr (out', itf)
        \<and> os_data out' = os_data plain_out @ stream_bytes (without_blank_lines two_records) []"
    using round_trip[OF wf_two_records bl k c, of kat_lib False "\<lambda>n. n"]
    unfolding plain_stream_def .
  then show ?thesis
    using wf_two_records bl k c unfolding d stream_two_records_plain by simp
qed

text \<open>
  C4. The spec: after \<open>parse_http\<close>, \<open>content_length\<close> is the original content length minus
  the bytes of the HTTP header block, its terminating blank line included; the header-block
  parser ends a block at the first line \<open>\r\n\<close>, \<open>\n\<close> or empty. The source ends a block at
  \<open>\r\n\<close> and at the empty line only (line 447). The record below holds 19 bytes: an HTTP
  header block of 17 bytes that ends with the blank line \<open>\n\<close>, and the body \<open>hi\<close>.
  \<open>parse_http\<close> reads through the blank line and the body: it leaves \<open>content_length\<close> 0 and
  nothing to read, where the spec leaves 2 and the body.
\<close>

theorem parse_http_lf_block:
  "r_content_length (set_bytes_content new_WarcRecord (''HTTP/1.1 200 OK'' @ LF @ LF @ ''hi'')) = 19
   \<and> length (''HTTP/1.1 200 OK'' @ LF @ LF) = 17
   \<and> (case parse_http (set_bytes_content new_WarcRecord (''HTTP/1.1 200 OK'' @ LF @ LF @ ''hi'')) of
         Inr r1 \<Rightarrow> (r_http_parsed r1, r_content_length r1, map_option br_avail (r_reader r1))
       | Inl e \<Rightarrow> (False, 0, None))
      = (True, 0, Some [])"
  by (simp add: parse_http_def set_bytes_content_def new_WarcRecord_def size_t_sub_def
      parse_header_block_def parse_header_block_loop.simps eval_defs)

text \<open>
  C5. \<open>verify_block_digest\<close> on a record whose \<open>WARC-Block-Digest\<close> header is
  \<open>alg:enc\<close>, with \<open>enc\<close> the base32 form of \<open>digest\<close>: for \<open>alg\<close> one of \<open>sha1\<close>, \<open>md5\<close>,
  \<open>sha256\<close> it hashes the bytes the reader still delivers with that algorithm, rebinds the
  record's reader to a fresh reader over exactly those bytes, at position 0, and returns
  whether the computed digest is the stored one; for any other \<open>alg\<close> it returns false and
  leaves the record as it is.
\<close>

theorem verify_block_digest_spec:
  assumes "get_header (r_headers r) ''WARC-Block-Digest'' = alg @ '':'' @ enc"
    and "CHR '':'' \<notin> set alg"
    and "lib_b32decode lib enc = Some digest"
    and "r_reader r = Some reader"
  shows "verify_block_digest lib r =
     (if alg = ''sha1'' then
        Inr (lib_sha1 lib (br_avail reader) = digest,
             r\<lparr>r_reader := Some (new_BufferedReader (br_avail reader))\<rparr>)
      else if alg = ''md5'' then
        Inr (lib_md5 lib (br_avail reader) = digest,
             r\<lparr>r_reader := Some (new_BufferedReader (br_avail reader))\<rparr>)
      else if alg = ''sha256'' then
        Inr (lib_sha256 lib (br_avail reader) = digest,
             r\<lparr>r_reader := Some (new_BufferedReader (br_avail reader))\<rparr>)
      else Inr (False, r))"
proof -
  have f: "find_char CHR '':'' (alg @ CHR '':'' # enc) = Some (length alg)"
    using assms(2) by (simp add: find_char_append)
  have "verify_block_digest lib r =
     (if alg \<noteq> ''sha1'' \<and> alg \<noteq> ''md5'' \<and> alg \<noteq> ''sha256'' then Inr (False, r)
      else Inr ((if alg = ''sha1'' then lib_sha1 lib
                 else if alg = ''md5'' then lib_md5 lib
                 else lib_sha256 lib) (br_avail reader) = digest,
                r\<lparr>r_reader := Some (new_BufferedReader (br_avail reader))\<rparr>))"
    using assms(3,4)
    by (simp add: verify_block_digest_def verify_digest_def assms(1) f substr_def substr_from_def
        read_blocks_all Let_def split del: if_split cong: if_cong)
  then show ?thesis by simp
qed

theorem verify_block_digest_spec_witness:
  "get_header (r_headers abc_record) ''WARC-Block-Digest'' = ''sha1'' @ '':'' @ ''VGMT4NSHA2AWVOR6EVYXQUGCNSONBWE5''
   \<and> CHR '':'' \<notin> set ''sha1''
   \<and> lib_b32decode kat_lib ''VGMT4NSHA2AWVOR6EVYXQUGCNSONBWE5'' = Some sha1_abc
   \<and> r_reader abc_record = Some (new_BufferedReader ''abc'')
   \<and> verify_block_digest kat_lib abc_record =
        Inr (True, abc_record\<lparr>r_reader := Some (new_BufferedReader ''abc'')\<rparr>)"
proof -
  have h1: "get_header (r_headers abc_record) ''WARC-Block-Digest'' = ''sha1'' @ '':'' @ ''VGMT4NSHA2AWVOR6EVYXQUGCNSONBWE5''"
    by (simp add: abc_record_def set_bytes_content_def new_WarcRecord_def append_header_def
        set_status_line_def new_WarcHeaderMap_def get_header_def str_to_lower_def tolower_def)
  have h2: "CHR '':'' \<notin> set ''sha1''" by simp
  have h3: "lib_b32decode kat_lib ''VGMT4NSHA2AWVOR6EVYXQUGCNSONBWE5'' = Some sha1_abc"
    by (simp add: kat_lib_def)
  have h4: "r_reader abc_record = Some (new_BufferedReader ''abc'')"
    by (simp add: abc_record_def set_bytes_content_def)
  have h5: "lib_sha1 kat_lib (br_avail (new_BufferedReader ''abc'')) = sha1_abc"
    by (simp add: kat_lib_def br_avail_def new_BufferedReader_def)
  show ?thesis
    using verify_block_digest_spec[OF h1 h2 h3 h4] h1 h2 h3 h4 h5
    by (simp add: br_avail_def new_BufferedReader_def)
qed

text \<open>
  C6. The spec: on an uncompressed stream \<open>stream_pos\<close> is the offset of the record's
  version line, and the values are strictly increasing. The source adds the length of every
  blank line plus one (line 519). On the first stream below, three \<open>\r\n\<close> and then a
  record, the version line starts at offset 6 and the record's \<open>stream_pos\<close> is 9. On the
  second, thirteen \<open>\n\<close> and two records of 12 bytes, the records start at 13 and 25 and are
  yielded with \<open>stream_pos\<close> 26 and 25.
\<close>

theorem stream_pos_after_blank_lines:
  "(case read_next_record (new_ArchiveIterator
      (plain_stream (CRLF @ CRLF @ CRLF @ ''WARC/1.1'' @ CRLF @ ''Content-Length: 0'' @ CRLF @ CRLF))
      True 65535) of
      Inr (status, it') \<Rightarrow> (status, map_option r_stream_pos (it_record it'))
    | Inl e \<Rightarrow> (eof, None)) = (has_next, Some 9)
   \<and> take 8 (drop 6 (CRLF @ CRLF @ CRLF @ ''WARC/1.1'' @ CRLF @ ''Content-Length: 0'' @ CRLF @ CRLF))
       = ''WARC/1.1''
   \<and> (case for_each_record (collect (\<lambda>r. 0)) (new_ArchiveIterator
        (plain_stream (LF @ LF @ LF @ LF @ LF @ LF @ LF @ LF @ LF @ LF @ LF @ LF @ LF
           @ ''WARC/1.0'' @ CRLF @ CRLF @ ''WARC/1.0'' @ CRLF @ CRLF))
        False 65535) [] of
        Inr (ys, it') \<Rightarrow> map (map_option r_stream_pos) ys
      | Inl e \<Rightarrow> []) = [Some 26, Some 25]"
  by (simp add: for_each_record.simps collect_def br_read_def br_close_def
      iter_defs eval_defs stoi_def is_digit_def digit_val_def int_to_size_t_def
      str_record_type_to_enum_def type_bits_def find_at_0_def)

text \<open>
  C7. The spec: the header-block parser stops at the first line that is \<open>\r\n\<close>, \<open>\n\<close> or
  empty. The source stops at \<open>\r\n\<close> and at the empty line only (line 447); a line \<open>\n\<close>
  starts with whitespace and is folded into the previous header. On the block below the
  parser passes the line \<open>\n\<close> and consumes all 10 bytes, up to EOF, instead of 6, and
  the map holds the one header \<open>A\<close>.
\<close>

theorem header_block_lf_line_not_terminator:
  "(case parse_header_block (new_BufferedReader (''A: b'' @ LF @ LF @ ''rest''))
           (new_WarcHeaderMap ''utf-8'') False of
      (bytes_consumed, reader, target) \<Rightarrow>
        (bytes_consumed, br_tell reader, br_data reader, map fst (m_headers target)))
   = (10, 10, [], [''A''])"
  by (simp add: parse_header_block_def parse_header_block_loop.simps eval_defs br_tell_def)

text \<open>
  C8. The spec: item access and \<open>get\<close> on a header map ignore the case of the name and
  return the first match. In the source both go through the dict of \<open>asdict\<close>: the key must
  be the decoded name exactly, and of several pairs with that name the last one's value is
  returned. Looking up \<open>content-type\<close> in a map that holds \<open>Content-Type\<close> raises \<open>KeyError\<close>.
\<close>

theorem getitem_case_sensitive_counterexample:
  "fst (getitem decode_7bit
          (append_header (new_WarcHeaderMap ''utf-8'') ''Content-Type'' ''text/plain'')
          ''content-type'') = Inl KeyError"
  by (simp add: getitem_def asdict_def build_dict_def append_header_def new_WarcHeaderMap_def
      decode_7bit_def Let_def)

text \<open>
  C8, amended. The internal \<open>get_header\<close> ignores case and returns the value of the first
  pair whose name matches (the empty string when there is none). Item access and \<open>get\<close>
  return the decoded value of the last pair whose decoded name is the key exactly;
  without such a pair item access raises \<open>KeyError\<close> and \<open>get\<close> returns the default. Names
  are stored as written.
\<close>

theorem header_lookup:
  assumes "m_dict_cache_stale m"
  shows "get_header m key =
           (case find (\<lambda>h. str_to_lower (fst h) = str_to_lower key) (m_headers m) of
              None \<Rightarrow> [] | Some h \<Rightarrow> snd h)
       \<and> fst (getitem dec m k) =
           (case find (\<lambda>h. dec (m_enc m) (fst h) = k) (rev (m_headers m)) of
              None \<Rightarrow> Inl KeyError | Some h \<Rightarrow> Inr (dec (m_enc m) (snd h)))
       \<and> fst (get_default dec m k dflt) =
           (case find (\<lambda>h. dec (m_enc m) (fst h) = k) (rev (m_headers m)) of
              None \<Rightarrow> Inr dflt | Some h \<Rightarrow> Inr (Some (dec (m_enc m) (snd h))))
       \<and> m_headers (append_header m key v) = m_headers m @ [(key, v)]"
  using assms
  by (simp add: get_header_def get_header_loop_find getitem_def get_default_def asdict_def
      Let_def map_of_build_dict append_header_def split: option.splits)

theorem header_lookup_witness:
  "get_header (append_header (new_WarcHeaderMap ''utf-8'') ''Content-Type'' ''text/plain'') ''CONTENT-TYPE'' = ''text/plain''
   \<and> fst (getitem decode_7bit (append_header (new_WarcHeaderMap ''utf-8'') ''Content-Type'' ''text/plain'') ''Content-Type'') = Inr ''text/plain''"
  using header_lookup[of "append_header (new_WarcHeaderMap ''utf-8'') ''Content-Type'' ''text/plain''"
      "''CONTENT-TYPE''" decode_7bit "''Content-Type''" None "''x''"]
  by (simp add: append_header_def new_WarcHeaderMap_def decode_7bit_def str_to_lower_def tolower_def)

text \<open>
  C9. The spec: the wire form of a written record ends with two \<open>\r\n\<close> after the payload.
  The source writes one (line 388): the record with status line \<open>WARC/1.1\<close>, no header and
  the payload \<open>hello\<close> is written as the bytes below.
\<close>

theorem write_one_crlf_counterexample:
  "emitted (record_write kat_lib hello_record plain_out False 16384)
     = ''WARC/1.1'' @ CRLF @ CRLF @ ''hello'' @ CRLF"
proof -
  have k: "os_kind plain_out \<noteq> NotAStream" by (simp add: plain_out_def)
  have h: "r_reader hello_record = Some (new_BufferedReader ''hello'')"
    "\<not> r_http_parsed hello_record"
    "header_map_bytes (r_headers hello_record) = ''WARC/1.1'' @ CRLF"
    "br_avail (new_BufferedReader ''hello'') = ''hello''"
    by (simp_all add: hello_record_def set_bytes_content_def new_WarcRecord_def
        header_map_bytes_def set_status_line_def new_WarcHeaderMap_def br_avail_def
        new_BufferedReader_def)
  have d: "os_data plain_out = []" by (simp add: plain_out_def)
  from write_impl_data[OF k, of 16384 True hello_record "new_WarcHeaderMap ''utf-8''"
      "new_BufferedReader ''hello''"]
  obtain n where "write_impl hello_record (Some (new_BufferedReader ''hello'')) plain_out True 16384
      = Inr (n, Some (br_advance (length (br_avail (new_BufferedReader ''hello'')))
                        (new_BufferedReader ''hello'')),
             plain_out\<lparr>os_data := os_data plain_out @ header_map_bytes (r_headers hello_record)
                @ CRLF @ [] @ br_avail (new_BufferedReader ''hello'') @ CRLF\<rparr>)"
    using h(2) by auto
  then show ?thesis using h d by (simp add: record_write_def emitted_def)
qed

text \<open>
  C9, amended. For every record with a reader, written with a chunk size above 0 to a
  stream or an object with \<open>write\<close>, in either mode: the bytes handed to the stream are the
  WARC headers of the record as written, a blank line, the HTTP headers and a blank line
  when they were parsed, the bytes the reader still delivers, and one \<open>\r\n\<close>. Without
  checksums and parsed HTTP headers the WARC headers are the record's own.
\<close>

theorem record_write_wire_form:
  assumes "os_kind out \<noteq> NotAStream" and "0 < chunk_size" and "r_reader r = Some rd"
    and "r_http_parsed r \<Longrightarrow> r_http_headers r = Some hh"
  shows "\<exists>n r' out'. record_write lib r out checksum_data chunk_size = Inr (n, r', out')
           \<and> os_data out' =
               os_data out @ header_map_bytes (r_headers r') @ CRLF
               @ (if r_http_parsed r then header_map_bytes hh @ CRLF else [])
               @ br_avail rd @ CRLF
           \<and> (\<not> checksum_data \<and> \<not> r_http_parsed r \<longrightarrow> r_headers r' = r_headers r)"
proof (cases "\<not> checksum_data \<and> \<not> r_http_parsed r")
  case True
  from write_impl_data[OF assms(1,2), of True r hh rd] True
  obtain n where "write_impl r (Some rd) out True chunk_size =
      Inr (n, Some (br_advance (length (br_avail rd)) rd),
           out\<lparr>os_data := os_data out @ header_map_bytes (r_headers r) @ CRLF @ br_avail rd @ CRLF\<rparr>)"
    by auto
  then show ?thesis using True assms(3) by (simp add: record_write_def)
next
  case False
  define block where "block = (if r_http_parsed r then header_map_bytes hh @ CRLF else []) @ br_avail rd"
  define h1 where "h1 = set_header (r_headers r) ''Content-Length'' (to_string (length block))"
  define h2 where "h2 = (if checksum_data \<and> r_http_parsed r
                             then set_header h1 ''WARC-Payload-Digest''
                                    (''sha1:'' @ lib_b32encode lib (lib_sha1 lib (br_avail rd)))
                             else h1)"
  define h3 where "h3 = (if checksum_data
                             then set_header h2 ''WARC-Block-Digest''
                                    (''sha1:'' @ lib_b32encode lib (lib_sha1 lib block))
                             else h2)"
  define r' where "r' = r\<lparr>r_headers := h3, r_reader := Some (br_advance (length (br_avail rd)) rd)\<rparr>"
  from write_impl_data[OF assms(1,2), of False r' hh "new_BufferedReader block"]
  obtain n where "write_impl r' (Some (new_BufferedReader block)) out False chunk_size =
      Inr (n, Some (br_advance (length (br_avail (new_BufferedReader block))) (new_BufferedReader block)),
           out\<lparr>os_data := os_data out @ header_map_bytes (r_headers r') @ CRLF
                  @ br_avail (new_BufferedReader block) @ CRLF\<rparr>)"
    by auto
  moreover have "br_avail (new_BufferedReader block) = block"
    by (simp add: br_avail_def new_BufferedReader_def)
  ultimately show ?thesis using False assms(2,3,4)
    by (auto simp: record_write_def read_blocks_all Let_def block_def h1_def h2_def h3_def r'_def)
qed

theorem record_write_wire_form_witness:
  "os_kind plain_out \<noteq> NotAStream \<and> (0::nat) < 16384
   \<and> r_reader hello_record = Some (new_BufferedReader ''hello'')
   \<and> \<not> r_http_parsed hello_record
   \<and> (\<exists>n r' out'. record_write kat_lib hello_record plain_out False 16384 = Inr (n, r', out')
         \<and> os_data out' = ''WARC/1.1'' @ CRLF @ CRLF @ ''hello'' @ CRLF)"
proof -
  have k: "os_kind plain_out \<noteq> NotAStream" by (simp add: plain_out_def)
  have c: "(0::nat) < 16384" by simp
  have h: "r_reader hello_record = Some (new_BufferedReader ''hello'')"
    by (simp add: hello_record_def set_bytes_content_def)
  have p: "\<not> r_http_parsed hello_record"
    by (simp add: hello_record_def set_bytes_content_def new_WarcRecord_def)
  have hp: "r_http_parsed hello_record \<Longrightarrow> r_http_headers hello_record = Some (new_WarcHeaderMap ''utf-8'')"
    using p by simp
  have e: "header_map_bytes (r_headers hello_record) = ''WARC/1.1'' @ CRLF"
    "br_avail (new_BufferedReader ''hello'') = ''hello''" "os_data plain_out = []"
    by (simp_all add: hello_record_def set_bytes_content_def new_WarcRecord_def
        header_map_bytes_def set_status_line_def new_WarcHeaderMap_def br_avail_def
        new_BufferedReader_def plain_out_def)
  from record_write_wire_form[OF k c h hp, of kat_lib False] p e
  have "\<exists>n r' out'. record_write kat_lib hello_record plain_out False 16384 = Inr (n, r', out')
         \<and> os_data out' = ''WARC/1.1'' @ CRLF @ CRLF @ ''hello'' @ CRLF"
    by auto
  then show ?thesis using k h p by simp
qed

text \<open>
  C10. The spec: for a status line \<open>HTTP/<version> <code> <reason>\<close> the property
  \<open>status_code\<close> is the code as an integer. The source ends with \<open>int(s)\<close> on the list of
  fields (line 145), not on its second element: for the status line \<open>HTTP/1.1 200 OK\<close> the
  property raises \<open>TypeError\<close>.
\<close>

theorem status_code_raises:
  "status_code (set_status_line (new_WarcHeaderMap ''iso-8859-15'') ''HTTP/1.1 200 OK'')
   = Inl TypeError"
  by (simp add: status_code_def set_status_line_def new_WarcHeaderMap_def find_at_0_def
      isdigit_def is_digit_def int_of_list_def)

end
